theory Spec2Isabelle
  imports Complex_Main "HOL-Library.Multiset" "HOL-Library.Sublist"
begin


section \<open>Python objects: errors, the list store, indexing\<close>

text \<open>
  The benchmark of \<^verbatim>\<open>task_3.py\<close> works on Python lists of integers. A list is an
  object: names and arguments hold a reference to it, \<^verbatim>\<open>a[k] = v\<close> and
  \<^verbatim>\<open>res.append(v)\<close> change the object in place, and \<^verbatim>\<open>lst[:]\<close> creates a new one.
  The store is the sequence of all list objects created so far; a reference is a
  position in it. An exception is an \<open>Inl\<close> result.
\<close>

datatype py_error = IndexError | ValueError string | ZeroDivisionError

type_synonym addr = nat
type_synonym store = "int list list"

definition alloc :: "store \<Rightarrow> int list \<Rightarrow> store \<times> addr" where
  "alloc s v = (s @ [v], length s)"

text \<open>
  Python's subscript: a negative index counts from the end, and an index outside the
  list raises \<^verbatim>\<open>IndexError\<close>.
\<close>

definition py_index :: "int list \<Rightarrow> int \<Rightarrow> py_error + nat" where
  "py_index xs i =
     (let n = int (length xs); k = (if i < 0 then i + n else i)
      in if 0 \<le> k \<and> k < n then Inr (nat k) else Inl IndexError)"

definition getitem :: "store \<Rightarrow> addr \<Rightarrow> int \<Rightarrow> py_error + int" where
  "getitem s a i =
     (case py_index (s ! a) i of Inl e \<Rightarrow> Inl e | Inr k \<Rightarrow> Inr (s ! a ! k))"

definition setitem :: "store \<Rightarrow> addr \<Rightarrow> int \<Rightarrow> int \<Rightarrow> py_error + store" where
  "setitem s a i v =
     (case py_index (s ! a) i of Inl e \<Rightarrow> Inl e | Inr k \<Rightarrow> Inr (s[a := (s ! a)[k := v]]))"

section \<open>Sorting algorithms\<close>

subsection \<open>Insertion sort\<close>

text \<open>
  \<^verbatim>\<open>
  def insertion_sort(lst):
      a = lst[:]
      for i in range(1, len(a)):
          key = a[i]
          j = i - 1
          while j >= 0 and key < a[j]:
              a[j + 1] = a[j]
              j -= 1
          a[j + 1] = key
      return a
  \<close>
  \<open>ins_while\<close> is the inner loop (it returns the store and the final \<open>j\<close>),
  \<open>ins_body\<close> one round of the outer loop and \<open>ins_for\<close> the outer loop over the
  values of \<^verbatim>\<open>range(1, len(a))\<close>, which Python computes once, before the first round.
\<close>

function ins_while :: "store \<Rightarrow> addr \<Rightarrow> int \<Rightarrow> int \<Rightarrow> py_error + store \<times> int" where
  "ins_while s a key j =
     (if 0 \<le> j then
        (case getitem s a j of
           Inl e \<Rightarrow> Inl e
         | Inr aj \<Rightarrow>
             if key < aj then
               (case setitem s a (j + 1) aj of
                  Inl e \<Rightarrow> Inl e
                | Inr s' \<Rightarrow> ins_while s' a key (j - 1))
             else Inr (s, j))
      else Inr (s, j))"
  by pat_completeness auto
termination
  by (relation "measure (\<lambda>(s, a, key, j). nat (j + 1))") auto

declare ins_while.simps [simp del]

definition ins_body :: "store \<Rightarrow> addr \<Rightarrow> int \<Rightarrow> py_error + store" where
  "ins_body s a i =
     (case getitem s a i of
        Inl e \<Rightarrow> Inl e
      | Inr key \<Rightarrow>
          (case ins_while s a key (i - 1) of
             Inl e \<Rightarrow> Inl e
           | Inr (s', j) \<Rightarrow> setitem s' a (j + 1) key))"

fun ins_for :: "store \<Rightarrow> addr \<Rightarrow> nat list \<Rightarrow> py_error + store" where
  "ins_for s a [] = Inr s"
| "ins_for s a (i # is) =
     (case ins_body s a (int i) of Inl e \<Rightarrow> Inl e | Inr s' \<Rightarrow> ins_for s' a is)"

definition insertion_sort :: "store \<Rightarrow> addr \<Rightarrow> py_error + store \<times> addr" where
  "insertion_sort s lst =
     (case alloc s (s ! lst) of
        (s1, a) \<Rightarrow>
          (case ins_for s1 a [1..<length (s1 ! a)] of
             Inl e \<Rightarrow> Inl e
           | Inr s2 \<Rightarrow> Inr (s2, a)))"

subsection \<open>Merge sort\<close>

text \<open>
  \<^verbatim>\<open>
  def _merge(left, right):
      res = []
      i = j = 0
      while i < len(left) and j < len(right):
          if left[i] <= right[j]:
              res.append(left[i]); i += 1
          else:
              res.append(right[j]); j += 1
      if i < len(left): res.extend(left[i:])
      if j < len(right): res.extend(right[j:])
      return res

  def merge_sort(arr):
      a = arr[:]
      if len(a) <= 1:
          return a
      mid = len(a) // 2
      return _merge(merge_sort(a[:mid]), merge_sort(a[mid:]))
  \<close>
  \<open>merge_while\<close> is the loop of \<^verbatim>\<open>_merge\<close>, \<open>merge_rest\<close> its two conditional
  \<^verbatim>\<open>extend\<close> statements and \<open>merge_py\<close> the whole of \<^verbatim>\<open>_merge\<close> (an Isabelle name
  cannot start with an underscore). The loop reads \<^verbatim>\<open>len(left)\<close> and \<^verbatim>\<open>len(right)\<close>
  from the store in every round and appends to the object \<open>res\<close>; were \<open>res\<close> the
  same object as \<open>left\<close> the loop could run forever, so the loop is a partial function
  and \<open>None\<close> stands for a run that does not return. The subscripts \<^verbatim>\<open>left[i]\<close> and
  \<^verbatim>\<open>right[j]\<close> are guarded by the loop condition, with \<open>i\<close> and \<open>j\<close> counting up
  from 0, so they are in range. The slices \<^verbatim>\<open>left[i:]\<close> and \<^verbatim>\<open>right[j:]\<close> are
  temporaries nothing refers to after the statement; they are not kept in the store.
  In \<open>merge_sort\<close> the arguments are evaluated from left to right: the second slice
  \<^verbatim>\<open>a[mid:]\<close> is read from the store the first recursive call returns.
\<close>

partial_function (option) merge_while ::
  "store \<Rightarrow> addr \<Rightarrow> addr \<Rightarrow> addr \<Rightarrow> nat \<Rightarrow> nat \<Rightarrow> (store \<times> nat \<times> nat) option" where
  "merge_while s left right res i j =
     (if i < length (s ! left) \<and> j < length (s ! right) then
        (if s ! left ! i \<le> s ! right ! j
         then merge_while (s[res := s ! res @ [s ! left ! i]]) left right res (i + 1) j
         else merge_while (s[res := s ! res @ [s ! right ! j]]) left right res i (j + 1))
      else Some (s, i, j))"

definition merge_rest :: "store \<Rightarrow> addr \<Rightarrow> addr \<Rightarrow> addr \<Rightarrow> nat \<Rightarrow> nat \<Rightarrow> store" where
  "merge_rest s left right res i j =
     (let s1 = (if i < length (s ! left) then s[res := s ! res @ drop i (s ! left)] else s)
      in if j < length (s1 ! right) then s1[res := s1 ! res @ drop j (s1 ! right)] else s1)"

definition merge_py :: "store \<Rightarrow> addr \<Rightarrow> addr \<Rightarrow> (store \<times> addr) option" where
  "merge_py s left right =
     (case alloc s [] of
        (s0, res) \<Rightarrow>
          (case merge_while s0 left right res 0 0 of
             None \<Rightarrow> None
           | Some (s1, i, j) \<Rightarrow> Some (merge_rest s1 left right res i j, res)))"

partial_function (option) merge_sort :: "store \<Rightarrow> addr \<Rightarrow> (store \<times> addr) option" where
  "merge_sort s arr =
     (case alloc s (s ! arr) of
        (s1, a) \<Rightarrow>
          if length (s1 ! a) \<le> 1 then Some (s1, a)
          else
            (let mid = length (s1 ! a) div 2 in
             case alloc s1 (take mid (s1 ! a)) of
               (s2, l) \<Rightarrow>
                 Option.bind (merge_sort s2 l) (\<lambda>(s3, lr).
                   case alloc s3 (drop mid (s3 ! a)) of
                     (s4, r) \<Rightarrow>
                       Option.bind (merge_sort s4 r) (\<lambda>(s5, rr). merge_py s5 lr rr))))"

declare merge_while.simps [code] merge_sort.simps [code]

subsection \<open>The built-in sort\<close>

text \<open>
  \<^verbatim>\<open>
  def timsort(arr):
      return sorted(arr)
  \<close>
  \<^verbatim>\<open>sorted\<close> is Python's built-in, not code of the repository. The language reference
  gives its contract: it returns a new list holding the items of its argument in
  ascending order, the sort is stable, and the argument is not changed. \<open>py_sorted\<close>
  states that contract with the stable \<^const>\<open>sort\<close> of the list library.
\<close>

definition py_sorted :: "store \<Rightarrow> addr \<Rightarrow> store \<times> addr" where
  "py_sorted s arr = alloc s (sort (s ! arr))"

definition timsort :: "store \<Rightarrow> addr \<Rightarrow> store \<times> addr" where
  "timsort s arr = py_sorted s arr"

text \<open>
  \<^verbatim>\<open>
  ALGORITHMS = {"Insertion": insertion_sort, "Merge": merge_sort,
                "Timsort (built-in)": timsort}
  \<close>
  A dictionary keeps its keys in insertion order, and the benchmark iterates over
  \<^verbatim>\<open>ALGORITHMS.items()\<close>, so the table is an association list. An entry of the table
  is a function that may raise (\<open>Inl\<close>) or not return (\<open>None\<close>); the three
  \<open>_algorithm\<close> constants are the three functions at that type.
\<close>

type_synonym algorithm = "store \<Rightarrow> addr \<Rightarrow> (py_error + store \<times> addr) option"

definition insertion_algorithm :: algorithm where
  "insertion_algorithm s lst = Some (insertion_sort s lst)"

definition merge_algorithm :: algorithm where
  "merge_algorithm s arr = map_option Inr (merge_sort s arr)"

definition timsort_algorithm :: algorithm where
  "timsort_algorithm s arr = Some (Inr (timsort s arr))"

definition ALGORITHMS :: "(string \<times> algorithm) list" where
  "ALGORITHMS =
     [(''Insertion'', insertion_algorithm),
      (''Merge'', merge_algorithm),
      (''Timsort (built-in)'', timsort_algorithm)]"

section \<open>Dataset generator\<close>

text \<open>
  \<^verbatim>\<open>random.Random(seed)\<close> is the Mersenne Twister of Python's standard library, not
  code of the repository. The model takes the generator as a parameter \<open>G\<close>: a type
  \<open>'g\<close> of generator states, the state \<open>seed_state G seed\<close> that seeding produces, and
  \<open>randbelow G g n\<close>, the draw of an integer below \<open>n\<close> from state \<open>g\<close> together with
  the state after it (\<^verbatim>\<open>Random._randbelow\<close>). \<open>randrange\<close> and \<open>randint\<close> follow
  \<^verbatim>\<open>Lib/random.py\<close>: \<^verbatim>\<open>randrange(n)\<close> raises \<^verbatim>\<open>ValueError\<close> unless \<open>n\<close> is positive,
  and \<^verbatim>\<open>randint(a, b)\<close> is \<^verbatim>\<open>randrange(a, b + 1)\<close>, that is \<open>a\<close> plus a draw below
  \<open>b + 1 - a\<close>.
\<close>

record 'g prng =
  seed_state :: "int \<Rightarrow> 'g"
  randbelow :: "'g \<Rightarrow> int \<Rightarrow> int \<times> 'g"

definition randrange :: "'g prng \<Rightarrow> 'g \<Rightarrow> int \<Rightarrow> py_error + int \<times> 'g" where
  "randrange G g n =
     (if 0 < n then Inr (randbelow G g n)
      else Inl (ValueError ''empty range for randrange()''))"

definition randint :: "'g prng \<Rightarrow> 'g \<Rightarrow> int \<Rightarrow> int \<Rightarrow> py_error + int \<times> 'g" where
  "randint G g a b =
     (if 0 < b + 1 - a then (case randbelow G g (b + 1 - a) of (k, g') \<Rightarrow> Inr (a + k, g'))
      else Inl (ValueError ''empty range for randrange()''))"

text \<open>
  \<^verbatim>\<open>
  def make_dataset(n, pattern, seed=42):
      rnd = random.Random(seed)
      if pattern == "random":
          return [rnd.randint(0, 1_000_000) for _ in range(n)]
      if pattern == "sorted":
          return list(range(n))
      if pattern == "reversed":
          return list(range(n, 0, -1))
      if pattern == "nearly_sorted":
          a = list(range(n))
          swaps = max(1, n // 100)
          for _ in range(swaps):
              i, j = rnd.randrange(n), rnd.randrange(n)
              a[i], a[j] = a[j], a[i]
          return a
      raise ValueError("Unknown pattern")
  \<close>
  \<open>random_items\<close> is the list comprehension and \<open>swap_loop\<close> the loop of swaps, which
  runs \<^verbatim>\<open>range(swaps)\<close> times. In a round Python draws \<open>i\<close> before \<open>j\<close>, reads
  \<^verbatim>\<open>a[j]\<close> and then \<^verbatim>\<open>a[i]\<close>, and assigns \<^verbatim>\<open>a[i]\<close> before \<^verbatim>\<open>a[j]\<close>.
  \<^verbatim>\<open>list(range(n))\<close> is \<open>[0..n - 1]\<close> and \<^verbatim>\<open>list(range(n, 0, -1))\<close> is \<open>rev [1..n]\<close>;
  both are empty when \<open>n\<close> is not positive. \<^verbatim>\<open>//\<close> is floor division, as \<open>div\<close> is.
\<close>

fun random_items :: "'g prng \<Rightarrow> 'g \<Rightarrow> nat \<Rightarrow> py_error + int list \<times> 'g" where
  "random_items G g 0 = Inr ([], g)"
| "random_items G g (Suc k) =
     (case randint G g 0 1000000 of
        Inl e \<Rightarrow> Inl e
      | Inr (v, g1) \<Rightarrow>
          (case random_items G g1 k of
             Inl e \<Rightarrow> Inl e
           | Inr (vs, g2) \<Rightarrow> Inr (v # vs, g2)))"

fun swap_loop :: "'g prng \<Rightarrow> store \<Rightarrow> addr \<Rightarrow> int \<Rightarrow> 'g \<Rightarrow> nat \<Rightarrow> py_error + store \<times> 'g" where
  "swap_loop G s a n g 0 = Inr (s, g)"
| "swap_loop G s a n g (Suc k) =
     (case randrange G g n of
        Inl e \<Rightarrow> Inl e
      | Inr (i, g1) \<Rightarrow>
          (case randrange G g1 n of
             Inl e \<Rightarrow> Inl e
           | Inr (j, g2) \<Rightarrow>
               (case getitem s a j of
                  Inl e \<Rightarrow> Inl e
                | Inr aj \<Rightarrow>
                    (case getitem s a i of
                       Inl e \<Rightarrow> Inl e
                     | Inr ai \<Rightarrow>
                         (case setitem s a i aj of
                            Inl e \<Rightarrow> Inl e
                          | Inr s1 \<Rightarrow>
                              (case setitem s1 a j ai of
                                 Inl e \<Rightarrow> Inl e
                               | Inr s2 \<Rightarrow> swap_loop G s2 a n g2 k))))))"

definition make_dataset :: "'g prng \<Rightarrow> store \<Rightarrow> int \<Rightarrow> string \<Rightarrow> int \<Rightarrow> py_error + store \<times> addr" where
  "make_dataset G s n pattern seed =
     (let rnd = seed_state G seed in
      if pattern = ''random'' then
        (case random_items G rnd (nat n) of
           Inl e \<Rightarrow> Inl e
         | Inr (vs, g) \<Rightarrow> Inr (alloc s vs))
      else if pattern = ''sorted'' then Inr (alloc s [0..n - 1])
      else if pattern = ''reversed'' then Inr (alloc s (rev [1..n]))
      else if pattern = ''nearly_sorted'' then
        (case alloc s [0..n - 1] of
           (s1, a) \<Rightarrow>
             (let swaps = max 1 (n div 100) in
              case swap_loop G s1 a n rnd (nat swaps) of
                Inl e \<Rightarrow> Inl e
              | Inr (s2, g) \<Rightarrow> Inr (s2, a)))
      else Inl (ValueError ''Unknown pattern''))"

section \<open>Timing harness\<close>

text \<open>
  A computation of the benchmark may return a value, raise an exception (\<open>Inl\<close>) or not
  return (\<open>None\<close>); \<open>bind_outcome\<close> runs one after another and stops at the first that
  does not return a value.
\<close>

type_synonym 'a outcome = "(py_error + 'a) option"

definition bind_outcome :: "'a outcome \<Rightarrow> ('a \<Rightarrow> 'b outcome) \<Rightarrow> 'b outcome" where
  "bind_outcome m f =
     (case m of None \<Rightarrow> None | Some (Inl e) \<Rightarrow> Some (Inl e) | Some (Inr x) \<Rightarrow> f x)"

text \<open>
  A Python float is a number, one of the two infinities or not-a-number. The numbers
  are modelled by the reals: rounding, signed zeros and the overflow of a result to an
  infinity are not modelled. A comparison with not-a-number is false. \<^verbatim>\<open>min(xs)\<close>
  raises \<^verbatim>\<open>ValueError\<close> on an empty list; otherwise it keeps the first element and
  replaces it by each later element that is smaller (\<open>min_loop\<close>).
\<close>

datatype pyfloat = Num real | PosInf | NegInf | NaN

definition fl_less :: "pyfloat \<Rightarrow> pyfloat \<Rightarrow> bool" where
  "fl_less x y =
     (case x of
        NaN \<Rightarrow> False
      | PosInf \<Rightarrow> False
      | NegInf \<Rightarrow> (case y of Num b \<Rightarrow> True | PosInf \<Rightarrow> True | NegInf \<Rightarrow> False | NaN \<Rightarrow> False)
      | Num a \<Rightarrow> (case y of Num b \<Rightarrow> a < b | PosInf \<Rightarrow> True | NegInf \<Rightarrow> False | NaN \<Rightarrow> False))"

fun min_loop :: "pyfloat \<Rightarrow> pyfloat list \<Rightarrow> pyfloat" where
  "min_loop cur [] = cur"
| "min_loop cur (x # xs) = min_loop (if fl_less x cur then x else cur) xs"

definition py_min :: "pyfloat list \<Rightarrow> py_error + pyfloat" where
  "py_min xs =
     (case xs of
        [] \<Rightarrow> Inl (ValueError ''min() arg is an empty sequence'')
      | x # rest \<Rightarrow> Inr (min_loop x rest))"

text \<open>
  Time. The state of the program is the store, the reading of the clock and the log of
  what has happened. An action that takes time (a copy of a list, a call of a sort
  function) moves the clock by the time the environment lets it take: \<open>E k\<close> is the
  duration of the action logged at position \<open>k\<close>, a parameter of the model. Reading the
  timer is logged and moves nothing.
\<close>

datatype event = TimerRead | Copied addr addr | Called addr

record world =
  objects :: store
  now :: real
  events :: "event list"

definition act :: "(nat \<Rightarrow> real) \<Rightarrow> event \<Rightarrow> world \<Rightarrow> world" where
  "act E e w = w\<lparr>now := now w + E (length (events w)), events := events w @ [e]\<rparr>"

definition read_timer :: "world \<Rightarrow> real \<times> world" where
  "read_timer w = (now w, w\<lparr>events := events w @ [TimerRead]\<rparr>)"

text \<open>
  \<^verbatim>\<open>
  def time_algorithm(func, data, repeats=3):
      def stmt():
          func(data[:])
      timer = timeit.Timer(stmt)
      times = timer.repeat(repeat=repeats, number=1)
      return min(times)
  \<close>
  \<open>stmt\<close> copies the dataset and calls the function on the copy. \<open>timeit\<close> is
  \<^verbatim>\<open>Timer.timeit(number=1)\<close> of the standard library: it reads the timer, runs the
  statement once, reads the timer again and returns the difference. \<open>timer_repeat\<close> is
  \<^verbatim>\<open>Timer.repeat\<close>: it calls \<^verbatim>\<open>timeit\<close> \<^verbatim>\<open>range(repeat)\<close> times and appends each result
  to a list.
\<close>

definition stmt :: "(nat \<Rightarrow> real) \<Rightarrow> algorithm \<Rightarrow> addr \<Rightarrow> world \<Rightarrow> world outcome" where
  "stmt E func data w =
     (case alloc (objects w) (objects w ! data) of
        (s1, c) \<Rightarrow>
          (let w1 = act E (Copied data c) (w\<lparr>objects := s1\<rparr>) in
           bind_outcome (func (objects w1) c) (\<lambda>(s2, r).
             Some (Inr (act E (Called c) (w1\<lparr>objects := s2\<rparr>))))))"

definition timeit :: "(world \<Rightarrow> world outcome) \<Rightarrow> world \<Rightarrow> (world \<times> pyfloat) outcome" where
  "timeit st w =
     (case read_timer w of
        (t0, w1) \<Rightarrow>
          bind_outcome (st w1) (\<lambda>w2.
            case read_timer w2 of (t1, w3) \<Rightarrow> Some (Inr (w3, Num (t1 - t0)))))"

fun timer_repeat ::
  "(world \<Rightarrow> world outcome) \<Rightarrow> nat \<Rightarrow> world \<Rightarrow> pyfloat list \<Rightarrow> (world \<times> pyfloat list) outcome" where
  "timer_repeat st 0 w r = Some (Inr (w, r))"
| "timer_repeat st (Suc k) w r =
     bind_outcome (timeit st w) (\<lambda>(w', t). timer_repeat st k w' (r @ [t]))"

definition time_algorithm ::
  "(nat \<Rightarrow> real) \<Rightarrow> algorithm \<Rightarrow> addr \<Rightarrow> int \<Rightarrow> world \<Rightarrow> (world \<times> pyfloat) outcome" where
  "time_algorithm E func data repeats w =
     bind_outcome (timer_repeat (stmt E func data) (nat repeats) w []) (\<lambda>(w', times).
       case py_min times of Inl e \<Rightarrow> Some (Inl e) | Inr t \<Rightarrow> Some (Inr (w', t)))"

section \<open>Benchmark orchestrator\<close>

text \<open>
  \<^verbatim>\<open>
  def run_benchmarks(sizes, large_sizes, patterns, repeats):
      rows = []
      for pattern in patterns:
          for n in sizes:
              data = make_dataset(n, pattern, seed=123)
              for name, func in ALGORITHMS.items():
                  t = time_algorithm(func, data, repeats=repeats)
                  rows.append({"pattern": pattern, "n": n, "algorithm": name, "time_sec": t})
          for n in large_sizes:
              data = make_dataset(n, pattern, seed=777)
              for name, func in ALGORITHMS.items():
                  if name == "Insertion":
                      continue
                  t = time_algorithm(func, data, repeats=repeats)
                  rows.append({"pattern": pattern, "n": n, "algorithm": name, "time_sec": t})
      return rows
  \<close>
  A row is the dictionary the code appends. The five loops are, from the inside:
  \<open>bench_algorithms\<close> (all algorithms), \<open>bench_algorithms_large\<close> (the loop with
  \<^verbatim>\<open>continue\<close>), \<open>bench_sizes\<close>, \<open>bench_large_sizes\<close> and \<open>bench_patterns\<close>. Each takes
  the rows collected so far and returns them extended.
\<close>

record row =
  row_pattern :: string
  row_n :: int
  row_algorithm :: string
  row_time_sec :: pyfloat

fun bench_algorithms ::
  "(nat \<Rightarrow> real) \<Rightarrow> (string \<times> algorithm) list \<Rightarrow> string \<Rightarrow> int \<Rightarrow> addr \<Rightarrow> int \<Rightarrow> world \<Rightarrow>
   row list \<Rightarrow> (world \<times> row list) outcome" where
  "bench_algorithms E [] pattern n data repeats w rows = Some (Inr (w, rows))"
| "bench_algorithms E ((name, func) # algs) pattern n data repeats w rows =
     bind_outcome (time_algorithm E func data repeats w) (\<lambda>(w', t).
       bench_algorithms E algs pattern n data repeats w'
         (rows @ [\<lparr>row_pattern = pattern, row_n = n, row_algorithm = name, row_time_sec = t\<rparr>]))"

fun bench_algorithms_large ::
  "(nat \<Rightarrow> real) \<Rightarrow> (string \<times> algorithm) list \<Rightarrow> string \<Rightarrow> int \<Rightarrow> addr \<Rightarrow> int \<Rightarrow> world \<Rightarrow>
   row list \<Rightarrow> (world \<times> row list) outcome" where
  "bench_algorithms_large E [] pattern n data repeats w rows = Some (Inr (w, rows))"
| "bench_algorithms_large E ((name, func) # algs) pattern n data repeats w rows =
     (if name = ''Insertion'' then bench_algorithms_large E algs pattern n data repeats w rows
      else
        bind_outcome (time_algorithm E func data repeats w) (\<lambda>(w', t).
          bench_algorithms_large E algs pattern n data repeats w'
            (rows @ [\<lparr>row_pattern = pattern, row_n = n, row_algorithm = name, row_time_sec = t\<rparr>])))"

fun bench_sizes ::
  "'g prng \<Rightarrow> (nat \<Rightarrow> real) \<Rightarrow> int list \<Rightarrow> string \<Rightarrow> int \<Rightarrow> world \<Rightarrow> row list \<Rightarrow>
   (world \<times> row list) outcome" where
  "bench_sizes G E [] pattern repeats w rows = Some (Inr (w, rows))"
| "bench_sizes G E (n # ns) pattern repeats w rows =
     (case make_dataset G (objects w) n pattern 123 of
        Inl e \<Rightarrow> Some (Inl e)
      | Inr (s, data) \<Rightarrow>
          bind_outcome
            (bench_algorithms E ALGORITHMS pattern n data repeats (w\<lparr>objects := s\<rparr>) rows)
            (\<lambda>(w', rows'). bench_sizes G E ns pattern repeats w' rows'))"

fun bench_large_sizes ::
  "'g prng \<Rightarrow> (nat \<Rightarrow> real) \<Rightarrow> int list \<Rightarrow> string \<Rightarrow> int \<Rightarrow> world \<Rightarrow> row list \<Rightarrow>
   (world \<times> row list) outcome" where
  "bench_large_sizes G E [] pattern repeats w rows = Some (Inr (w, rows))"
| "bench_large_sizes G E (n # ns) pattern repeats w rows =
     (case make_dataset G (objects w) n pattern 777 of
        Inl e \<Rightarrow> Some (Inl e)
      | Inr (s, data) \<Rightarrow>
          bind_outcome
            (bench_algorithms_large E ALGORITHMS pattern n data repeats (w\<lparr>objects := s\<rparr>) rows)
            (\<lambda>(w', rows'). bench_large_sizes G E ns pattern repeats w' rows'))"

fun bench_patterns ::
  "'g prng \<Rightarrow> (nat \<Rightarrow> real) \<Rightarrow> int list \<Rightarrow> int list \<Rightarrow> string list \<Rightarrow> int \<Rightarrow> world \<Rightarrow> row list \<Rightarrow>
   (world \<times> row list) outcome" where
  "bench_patterns G E sizes large_sizes [] repeats w rows = Some (Inr (w, rows))"
| "bench_patterns G E sizes large_sizes (pattern # ps) repeats w rows =
     bind_outcome (bench_sizes G E sizes pattern repeats w rows) (\<lambda>(w1, rows1).
       bind_outcome (bench_large_sizes G E large_sizes pattern repeats w1 rows1) (\<lambda>(w2, rows2).
         bench_patterns G E sizes large_sizes ps repeats w2 rows2))"

definition run_benchmarks ::
  "'g prng \<Rightarrow> (nat \<Rightarrow> real) \<Rightarrow> int list \<Rightarrow> int list \<Rightarrow> string list \<Rightarrow> int \<Rightarrow> world \<Rightarrow>
   (world \<times> row list) outcome" where
  "run_benchmarks G E sizes large_sizes patterns repeats w =
     bench_patterns G E sizes large_sizes patterns repeats w []"

section \<open>Growth-factor analyzer\<close>

text \<open>
  Python's float division raises \<^verbatim>\<open>ZeroDivisionError\<close> when the divisor is zero, whatever
  the dividend (an infinity or not-a-number included). Otherwise it follows IEEE 754:
  the quotient is not-a-number when an operand is, and when both operands are
  infinite; an infinity divided by a number is an infinity with the product of the
  signs; a number divided by an infinity is zero; and the quotient of two numbers is
  a number.
\<close>

definition fl_div :: "pyfloat \<Rightarrow> pyfloat \<Rightarrow> py_error + pyfloat" where
  "fl_div x y =
     (case y of
        NaN \<Rightarrow> Inr NaN
      | Num b \<Rightarrow>
          if b = 0 then Inl ZeroDivisionError
          else
            (case x of
               NaN \<Rightarrow> Inr NaN
             | Num a \<Rightarrow> Inr (Num (a / b))
             | PosInf \<Rightarrow> Inr (if 0 < b then PosInf else NegInf)
             | NegInf \<Rightarrow> Inr (if 0 < b then NegInf else PosInf))
      | PosInf \<Rightarrow> (case x of Num a \<Rightarrow> Inr (Num 0) | PosInf \<Rightarrow> Inr NaN | NegInf \<Rightarrow> Inr NaN | NaN \<Rightarrow> Inr NaN)
      | NegInf \<Rightarrow> (case x of Num a \<Rightarrow> Inr (Num 0) | PosInf \<Rightarrow> Inr NaN | NegInf \<Rightarrow> Inr NaN | NaN \<Rightarrow> Inr NaN))"

text \<open>
  \<^verbatim>\<open>
  def compute_growth(rows):
      sizes = [1000, 2000, 5000]
      patterns = ["random", "reversed", "nearly_sorted"]
      result = []
      for pattern in patterns:
          for algo in ["Insertion", "Merge", "Timsort (built-in)"]:
              ts = []
              for n in sizes:
                  vals = [r["time_sec"] for r in rows
                          if r["pattern"] == pattern and r["n"] == n and r["algorithm"] == algo]
                  if not vals: ts.append(float("nan"))
                  else:        ts.append(min(vals))
              g1 = ts[1] / ts[0]
              g2 = ts[2] / ts[1]
              result += [
                  {"pattern": pattern, "algorithm": algo, "pair": "1k->2k", "growth": g1},
                  {"pattern": pattern, "algorithm": algo, "pair": "2k->5k", "growth": g2},
              ]
      return result
  \<close>
  In the source the two pair labels hold the arrow U+2192 where this text writes
  \<^verbatim>\<open>->\<close>; \<open>pair_1k_2k\<close> and \<open>pair_2k_5k\<close> are the labels in UTF-8, the encoding the
  program writes them in. \<open>cell_vals\<close> is the list \<^verbatim>\<open>vals\<close>, \<open>cell_time\<close> the entry
  appended to \<^verbatim>\<open>ts\<close> (\<^verbatim>\<open>min\<close> of a list that is not empty does not raise),
  \<open>growth_algos\<close> the loop over the algorithms and \<open>growth_patterns\<close> the loop over
  the patterns, each extending \<^verbatim>\<open>result\<close>. The list \<^verbatim>\<open>ts\<close> has three entries, so its
  subscripts 0, 1 and 2 are in range.
\<close>

record growth_row =
  growth_pattern :: string
  growth_algorithm :: string
  growth_pair :: string
  growth :: pyfloat

definition pair_1k_2k :: string where
  "pair_1k_2k = ''1k'' @ [CHR 0xE2, CHR 0x86, CHR 0x92] @ ''2k''"

definition pair_2k_5k :: string where
  "pair_2k_5k = ''2k'' @ [CHR 0xE2, CHR 0x86, CHR 0x92] @ ''5k''"

definition cell_vals :: "row list \<Rightarrow> string \<Rightarrow> string \<Rightarrow> int \<Rightarrow> pyfloat list" where
  "cell_vals rows pattern algo n =
     map row_time_sec
       (filter (\<lambda>r. row_pattern r = pattern \<and> row_n r = n \<and> row_algorithm r = algo) rows)"

definition cell_time :: "row list \<Rightarrow> string \<Rightarrow> string \<Rightarrow> int \<Rightarrow> pyfloat" where
  "cell_time rows pattern algo n =
     (case cell_vals rows pattern algo n of [] \<Rightarrow> NaN | v # vs \<Rightarrow> min_loop v vs)"

fun growth_algos :: "row list \<Rightarrow> string \<Rightarrow> string list \<Rightarrow> growth_row list \<Rightarrow> py_error + growth_row list" where
  "growth_algos rows pattern [] result = Inr result"
| "growth_algos rows pattern (algo # algos) result =
     (let ts = map (cell_time rows pattern algo) [1000, 2000, 5000] in
      case fl_div (ts ! 1) (ts ! 0) of
        Inl e \<Rightarrow> Inl e
      | Inr g1 \<Rightarrow>
          (case fl_div (ts ! 2) (ts ! 1) of
             Inl e \<Rightarrow> Inl e
           | Inr g2 \<Rightarrow>
               growth_algos rows pattern algos
                 (result @
                  [\<lparr>growth_pattern = pattern, growth_algorithm = algo,
                     growth_pair = pair_1k_2k, growth = g1\<rparr>,
                   \<lparr>growth_pattern = pattern, growth_algorithm = algo,
                     growth_pair = pair_2k_5k, growth = g2\<rparr>])))"

fun growth_patterns :: "row list \<Rightarrow> string list \<Rightarrow> growth_row list \<Rightarrow> py_error + growth_row list" where
  "growth_patterns rows [] result = Inr result"
| "growth_patterns rows (pattern # patterns) result =
     (case growth_algos rows pattern [''Insertion'', ''Merge'', ''Timsort (built-in)''] result of
        Inl e \<Rightarrow> Inl e
      | Inr result' \<Rightarrow> growth_patterns rows patterns result')"

definition compute_growth :: "row list \<Rightarrow> py_error + growth_row list" where
  "compute_growth rows = growth_patterns rows [''random'', ''reversed'', ''nearly_sorted''] []"


section \<open>Functions used in the proofs\<close>

text \<open>
  Proof device: \<open>shift_in key ys\<close> is what the inner loop and the final assignment make
  of a prefix whose reversal is \<open>ys\<close>: the elements greater than \<open>key\<close> at the right end
  move one place to the right and \<open>key\<close> lands in the gap.
\<close>

fun shift_in :: "int \<Rightarrow> int list \<Rightarrow> int list" where
  "shift_in key [] = [key]"
| "shift_in key (y # ys) = (if key < y then y # shift_in key ys else key # y # ys)"

text \<open>
  \<open>interleave\<close> is the merge of two lists as values, which \<open>merge_py\<close> is shown to
  compute in the store.
\<close>

fun interleave :: "int list \<Rightarrow> int list \<Rightarrow> int list" where
  "interleave (x # xs) (y # ys) =
     (if x \<le> y then x # interleave xs (y # ys) else y # interleave (x # xs) ys)"
| "interleave [] ys = ys"
| "interleave xs [] = xs"

text \<open>
  The contract of the external generator, as the library documents it: a draw below a
  positive \<open>n\<close> lies in \<open>0 \<le> k < n\<close>.
\<close>

definition prng_in_range :: "'g prng \<Rightarrow> bool" where
  "prng_in_range G = (\<forall>g n. 0 < n \<longrightarrow> 0 \<le> fst (randbelow G g n) \<and> fst (randbelow G g n) < n)"

text \<open>
  A generator that honours the contract, for concrete runs: its state is a counter.
\<close>

definition counter_prng :: "int prng" where
  "counter_prng = \<lparr>seed_state = (\<lambda>seed. seed), randbelow = (\<lambda>g n. ((g * 7 + 3) mod n, g + 1))\<rparr>"

text \<open>\<open>differing xs ys\<close> counts the positions at which two lists differ.\<close>

definition differing :: "int list \<Rightarrow> int list \<Rightarrow> nat" where
  "differing xs ys = length (filter (\<lambda>(x, y). x \<noteq> y) (zip xs ys))"

text \<open>
  An algorithm is total when, called on any list object of the store, it returns and
  leaves the objects that existed before the call as they were.
\<close>

definition total_algorithm :: "algorithm \<Rightarrow> bool" where
  "total_algorithm f = (\<forall>s d. d < length s \<longrightarrow> (\<exists>s' r. f s d = Some (Inr (s', r)) \<and> prefix s s'))"

text \<open>
  \<open>trials f d s es k s'\<close>: from the store \<open>s\<close>, the log \<open>es\<close> is \<open>k\<close> trials that end in
  the store \<open>s'\<close>. A trial is a timer reading, the copy of the dataset \<open>d\<close> to the
  new object at the end of the store as the trial finds it, one call of \<open>f\<close> on that
  object in the store that holds the copy, and a timer reading; the next trial starts
  from the store that call returns. \<open>copies\<close> and \<open>calls\<close> are the objects a log
  records as created by a copy and as called on, in order.
\<close>

fun trials :: "algorithm \<Rightarrow> addr \<Rightarrow> store \<Rightarrow> event list \<Rightarrow> nat \<Rightarrow> store \<Rightarrow> bool" where
  "trials f d s es 0 s' = (es = [] \<and> s' = s)"
| "trials f d s (TimerRead # Copied src c # Called c' # TimerRead # es) (Suc k) s' =
     (src = d \<and> c = length s \<and> c' = c \<and>
      (case f (s @ [s ! d]) c of
         Some (Inr (s1, r)) \<Rightarrow> trials f d s1 es k s'
       | _ \<Rightarrow> False))"
| "trials f d s es (Suc k) s' = False"

fun copies :: "event list \<Rightarrow> addr list" where
  "copies [] = []"
| "copies (Copied src c # es) = c # copies es"
| "copies (e # es) = copies es"

fun calls :: "event list \<Rightarrow> addr list" where
  "calls [] = []"
| "calls (Called c # es) = c # calls es"
| "calls (e # es) = calls es"

text \<open>
  With \<open>L\<close> events logged before the first trial, trial \<open>i\<close> logs its timer reading at
  \<open>L + 4 * i\<close>, its copy at \<open>L + 4 * i + 1\<close> and its call at \<open>L + 4 * i + 2\<close>.
  \<open>trial_duration\<close> is the time of the copy plus the time of the call,
  \<open>call_duration\<close> the time of the call alone.
\<close>

definition trial_duration :: "(nat \<Rightarrow> real) \<Rightarrow> nat \<Rightarrow> nat \<Rightarrow> real" where
  "trial_duration E L i = E (L + 4 * i + 1) + E (L + 4 * i + 2)"


text \<open>An environment in which every action takes one unit of time, and the first state.\<close>

definition unit_cost :: "nat \<Rightarrow> real" where
  "unit_cost k = 1"

definition start_world :: world where
  "start_world = \<lparr>objects = [], now = 0, events = []\<rparr>"


text \<open>
  The key of a row, and the keys a run is expected to produce, written from the
  description of the order: pattern by pattern; within a pattern the small sizes, then
  the large sizes; within a size the registered algorithms in the order of the table,
  all of them at a small size and all but \<^verbatim>\<open>Insertion\<close> at a large size.
\<close>

definition row_key :: "row \<Rightarrow> string \<times> int \<times> string" where
  "row_key r = (row_pattern r, row_n r, row_algorithm r)"

definition small_keys :: "string \<Rightarrow> int list \<Rightarrow> (string \<times> int \<times> string) list" where
  "small_keys p sizes = concat (map (\<lambda>n. map (\<lambda>a. (p, n, a)) (map fst ALGORITHMS)) sizes)"

definition large_keys :: "string \<Rightarrow> int list \<Rightarrow> (string \<times> int \<times> string) list" where
  "large_keys p large_sizes =
     concat (map (\<lambda>n. map (\<lambda>a. (p, n, a)) (filter (\<lambda>a. a \<noteq> ''Insertion'') (map fst ALGORITHMS)))
       large_sizes)"

definition expected_keys :: "int list \<Rightarrow> int list \<Rightarrow> string list \<Rightarrow> (string \<times> int \<times> string) list" where
  "expected_keys sizes large_sizes patterns =
     concat (map (\<lambda>p. small_keys p sizes @ large_keys p large_sizes) patterns)"

text \<open>The rows of a run; none when the run raises or does not return.\<close>

definition rows_of :: "(world \<times> row list) outcome \<Rightarrow> row list" where
  "rows_of m = (case m of Some (Inr (w, rows)) \<Rightarrow> rows | _ \<Rightarrow> [])"

text \<open>
  A configuration on which every dataset can be generated and every measurement taken:
  the patterns are supported, \<open>repeats\<close> is positive, and where \<^verbatim>\<open>nearly_sorted\<close> is asked
  for, the sizes are positive and the generator draws in range.
\<close>

definition valid_config :: "'g prng \<Rightarrow> int list \<Rightarrow> int list \<Rightarrow> string list \<Rightarrow> int \<Rightarrow> bool" where
  "valid_config G sizes large_sizes patterns repeats =
     (set patterns \<subseteq> {''random'', ''sorted'', ''reversed'', ''nearly_sorted''} \<and> 0 < repeats \<and>
      (''nearly_sorted'' \<in> set patterns \<longrightarrow>
         prng_in_range G \<and> (\<forall>n \<in> set (sizes @ large_sizes). 0 < n)))"

text \<open>
  The plan of a run, written from its description. A job is one dataset and the
  measurements on it: a pattern, a size, the seed of the generator and the registered
  algorithms to measure, each with its name. For every pattern in order there is one
  job for each small size, with seed 123 and all registered algorithms, and then one
  job for each large size, with seed 777 and the registered algorithms but
  \<^verbatim>\<open>Insertion\<close>. \<open>perform_job\<close> generates the dataset of the job once and measures
  the algorithms of the job on it in order, with \<open>time_algorithm\<close>, giving one row for
  each; \<open>perform_jobs\<close> performs the jobs in order and gives their rows in that order.
\<close>

type_synonym job = "string \<times> int \<times> int \<times> (string \<times> algorithm) list"

definition jobs :: "int list \<Rightarrow> int list \<Rightarrow> string list \<Rightarrow> job list" where
  "jobs sizes large_sizes patterns =
     concat (map (\<lambda>p.
       map (\<lambda>n. (p, n, 123, ALGORITHMS)) sizes @
       map (\<lambda>n. (p, n, 777, filter (\<lambda>(name, f). name \<noteq> ''Insertion'') ALGORITHMS)) large_sizes)
     patterns)"

fun measure_each ::
  "(nat \<Rightarrow> real) \<Rightarrow> int \<Rightarrow> string \<Rightarrow> int \<Rightarrow> addr \<Rightarrow> (string \<times> algorithm) list \<Rightarrow> world \<Rightarrow>
   (world \<times> row list) outcome" where
  "measure_each E repeats p n data [] w = Some (Inr (w, []))"
| "measure_each E repeats p n data ((name, f) # algs) w =
     bind_outcome (time_algorithm E f data repeats w) (\<lambda>(w1, t).
       bind_outcome (measure_each E repeats p n data algs w1) (\<lambda>(w2, rows).
         Some (Inr (w2, \<lparr>row_pattern = p, row_n = n, row_algorithm = name, row_time_sec = t\<rparr> # rows))))"

definition perform_job :: "'g prng \<Rightarrow> (nat \<Rightarrow> real) \<Rightarrow> int \<Rightarrow> job \<Rightarrow> world \<Rightarrow> (world \<times> row list) outcome" where
  "perform_job G E repeats j w =
     (case j of
        (p, n, seed, algs) \<Rightarrow>
          (case make_dataset G (objects w) n p seed of
             Inl e \<Rightarrow> Some (Inl e)
           | Inr (s, data) \<Rightarrow> measure_each E repeats p n data algs (w\<lparr>objects := s\<rparr>)))"

fun perform_jobs ::
  "'g prng \<Rightarrow> (nat \<Rightarrow> real) \<Rightarrow> int \<Rightarrow> job list \<Rightarrow> world \<Rightarrow> (world \<times> row list) outcome" where
  "perform_jobs G E repeats [] w = Some (Inr (w, []))"
| "perform_jobs G E repeats (j # js) w =
     bind_outcome (perform_job G E repeats j w) (\<lambda>(w1, rows1).
       bind_outcome (perform_jobs G E repeats js w1) (\<lambda>(w2, rows2).
         Some (Inr (w2, rows1 @ rows2))))"

text \<open>
  The growth analysis as a table. \<open>fl_quotient\<close> is the quotient of two floats where
  the division does not raise. The patterns and algorithms the analysis covers are
  the two lists of the source. \<open>cell_zero\<close>: the minimum recorded for a pattern and an
  algorithm at size 1000 or at size 2000, the two sizes whose times are divisors, is
  zero; \<open>zero_denominator\<close>: that holds for one of the nine combinations.
  \<open>cell_rows\<close> are the two growth rows of a combination and \<open>growth_table\<close> the rows
  of all nine.
\<close>

definition fl_quotient :: "pyfloat \<Rightarrow> pyfloat \<Rightarrow> pyfloat" where
  "fl_quotient x y = (case fl_div x y of Inl e \<Rightarrow> NaN | Inr q \<Rightarrow> q)"

definition growth_patterns_of_interest :: "string list" where
  "growth_patterns_of_interest = [''random'', ''reversed'', ''nearly_sorted'']"

definition growth_algorithms_of_interest :: "string list" where
  "growth_algorithms_of_interest = [''Insertion'', ''Merge'', ''Timsort (built-in)'']"

definition cell_zero :: "row list \<Rightarrow> string \<Rightarrow> string \<Rightarrow> bool" where
  "cell_zero rows p a = (cell_time rows p a 1000 = Num 0 \<or> cell_time rows p a 2000 = Num 0)"

definition zero_denominator :: "row list \<Rightarrow> bool" where
  "zero_denominator rows =
     list_ex (\<lambda>p. list_ex (cell_zero rows p) growth_algorithms_of_interest)
       growth_patterns_of_interest"

definition cell_rows :: "row list \<Rightarrow> string \<Rightarrow> string \<Rightarrow> growth_row list" where
  "cell_rows rows p a =
     [\<lparr>growth_pattern = p, growth_algorithm = a, growth_pair = pair_1k_2k,
        growth = fl_quotient (cell_time rows p a 2000) (cell_time rows p a 1000)\<rparr>,
      \<lparr>growth_pattern = p, growth_algorithm = a, growth_pair = pair_2k_5k,
        growth = fl_quotient (cell_time rows p a 5000) (cell_time rows p a 2000)\<rparr>]"

definition growth_table :: "row list \<Rightarrow> growth_row list" where
  "growth_table rows =
     concat (map (\<lambda>p. concat (map (cell_rows rows p) growth_algorithms_of_interest))
       growth_patterns_of_interest)"

text \<open>
  The key of a growth row. A cell is missing when no row of the input has its pattern,
  algorithm and size; it is finite when it is not missing and each of its recorded
  times is a number (not an infinity and not not-a-number). A pair label touches the two ladder sizes it names.
  \<open>without_cell\<close> removes the rows of one cell from the input.
\<close>

definition growth_key :: "growth_row \<Rightarrow> string \<times> string \<times> string" where
  "growth_key r = (growth_pattern r, growth_algorithm r, growth_pair r)"

definition missing :: "row list \<Rightarrow> string \<Rightarrow> string \<Rightarrow> int \<Rightarrow> bool" where
  "missing rows p a n = (cell_vals rows p a n = [])"

definition is_number :: "pyfloat \<Rightarrow> bool" where
  "is_number v = (case v of Num a \<Rightarrow> True | _ \<Rightarrow> False)"

definition finite_cell :: "row list \<Rightarrow> string \<Rightarrow> string \<Rightarrow> int \<Rightarrow> bool" where
  "finite_cell rows p a n =
     (cell_vals rows p a n \<noteq> [] \<and> list_all is_number (cell_vals rows p a n))"

definition touches :: "string \<Rightarrow> int \<Rightarrow> bool" where
  "touches label n =
     (label = pair_1k_2k \<and> (n = 1000 \<or> n = 2000) \<or> label = pair_2k_5k \<and> (n = 2000 \<or> n = 5000))"

definition without_cell :: "row list \<Rightarrow> string \<Rightarrow> string \<Rightarrow> int \<Rightarrow> row list" where
  "without_cell rows p a n =
     filter (\<lambda>r. \<not> (row_pattern r = p \<and> row_n r = n \<and> row_algorithm r = a)) rows"

text \<open>Rows for concrete runs of the analysis.\<close>

definition mk_row :: "string \<Rightarrow> int \<Rightarrow> string \<Rightarrow> pyfloat \<Rightarrow> row" where
  "mk_row p n a t = \<lparr>row_pattern = p, row_n = n, row_algorithm = a, row_time_sec = t\<rparr>"

definition sample_rows :: "row list" where
  "sample_rows =
     [mk_row ''random'' 1000 ''Merge'' (Num 1), mk_row ''random'' 2000 ''Merge'' (Num 3),
      mk_row ''random'' 5000 ''Merge'' (Num 6)]"

definition infinite_rows :: "row list" where
  "infinite_rows =
     [mk_row ''random'' 1000 ''Merge'' PosInf, mk_row ''random'' 2000 ''Merge'' PosInf,
      mk_row ''random'' 5000 ''Merge'' PosInf]"

text \<open>
  The growth ratios an analysis returns for a pattern and an algorithm, in order; none
  when it raises.
\<close>

definition growth_of :: "py_error + growth_row list \<Rightarrow> string \<Rightarrow> string \<Rightarrow> pyfloat list" where
  "growth_of m p a =
     (case m of
        Inl e \<Rightarrow> []
      | Inr g \<Rightarrow> map growth (filter (\<lambda>r. growth_pattern r = p \<and> growth_algorithm r = a) g))"

section \<open>Verification of the sorting algorithms\<close>

subsection \<open>Insertion sort\<close>

lemma getitem_in: "0 \<le> i \<Longrightarrow> i < int (length (s ! a)) \<Longrightarrow> getitem s a i = Inr (s ! a ! nat i)"
  by (simp add: getitem_def py_index_def)

lemma setitem_in:
  "0 \<le> i \<Longrightarrow> i < int (length (s ! a)) \<Longrightarrow> setitem s a i v = Inr (s[a := (s ! a)[nat i := v]])"
  by (simp add: setitem_def py_index_def)

lemma update_head: "xs \<noteq> [] \<Longrightarrow> xs[0 := k] = k # drop (Suc 0) xs"
  by (cases xs) simp_all

lemma update_at: "n < length xs \<Longrightarrow> xs[n := k] = take n xs @ k # drop (Suc n) xs"
  by (simp add: upd_conv_take_nth_drop)

lemma ins_while_spec:
  "a < length s \<Longrightarrow> n < length (s ! a) \<Longrightarrow>
   \<exists>l j. ins_while s a key (int n - 1) = Inr (s[a := l], j) \<and> - 1 \<le> j \<and> j < int n \<and>
         length l = length (s ! a) \<and>
         l[nat (j + 1) := key] = rev (shift_in key (rev (take n (s ! a)))) @ drop (Suc n) (s ! a)"
proof (induction n arbitrary: s)
  case 0
  have "ins_while s a key (- 1) = Inr (s, - 1)"
    by (simp add: ins_while.simps)
  moreover have "(s ! a)[0 := key] = [key] @ drop (Suc 0) (s ! a)"
    using 0 by (simp add: update_head)
  ultimately show ?case
    by (intro exI[of _ "s ! a"] exI[of _ "- 1"]) simp
next
  case (Suc m)
  let ?xs = "s ! a"
  let ?x = "?xs ! m"
  have m: "m < length ?xs" "Suc m < length ?xs" using Suc.prems by simp_all
  have g: "getitem s a (int m) = Inr ?x"
    using m by (simp add: getitem_in)
  have tk: "take (Suc m) ?xs = take m ?xs @ [?x]"
    using m by (simp add: take_Suc_conv_app_nth)
  show ?case
  proof (cases "key < ?x")
    case False
    have "ins_while s a key (int (Suc m) - 1) = Inr (s, int m)"
      using g False by (simp add: ins_while.simps[of s a key "int m"])
    moreover have "?xs[Suc m := key] = rev (shift_in key (rev (take (Suc m) ?xs))) @ drop (Suc (Suc m)) ?xs"
      using m False by (simp add: tk update_at)
    ultimately show ?thesis
      by (intro exI[of _ "s ! a"] exI[of _ "int m"]) (simp add: nat_add_distrib)
  next
    case True
    let ?s' = "s[a := ?xs[Suc m := ?x]]"
    have st: "setitem s a (int m + 1) ?x = Inr ?s'"
      using m by (simp add: setitem_in nat_add_distrib)
    have step: "ins_while s a key (int (Suc m) - 1) = ins_while ?s' a key (int m - 1)"
      using g True st by (simp add: ins_while.simps[of s a key "int m"])
    have a': "a < length ?s'" using Suc.prems by simp
    have xs': "?s' ! a = ?xs[Suc m := ?x]" using Suc.prems by simp
    have m': "m < length (?s' ! a)" using m xs' by simp
    from Suc.IH[OF a' m'] obtain l j where
      r: "ins_while ?s' a key (int m - 1) = Inr (?s'[a := l], j)" and
      j: "- 1 \<le> j" "j < int m" and
      len: "length l = length (?s' ! a)" and
      eq: "l[nat (j + 1) := key] = rev (shift_in key (rev (take m (?s' ! a)))) @ drop (Suc m) (?s' ! a)"
      by blast
    have "drop (Suc m) (?xs[Suc m := ?x]) = ?x # drop (Suc (Suc m)) ?xs"
      using m by (simp add: update_at)
    then have d: "drop (Suc m) (?s' ! a) = ?x # drop (Suc (Suc m)) ?xs"
      by (simp only: xs')
    have "take m (?xs[Suc m := ?x]) = take m ?xs"
      by simp
    then have t: "take m (?s' ! a) = take m ?xs"
      by (simp only: xs')
    have "l[nat (j + 1) := key] = rev (shift_in key (rev (take (Suc m) ?xs))) @ drop (Suc (Suc m)) ?xs"
      using eq True by (simp add: d t tk)
    then show ?thesis
      using r j len step xs' by (intro exI[of _ l] exI[of _ j]) simp
  qed
qed

lemma mset_shift_in: "mset (shift_in key ys) = add_mset key (mset ys)"
  by (induction ys) simp_all

lemma length_shift_in: "length (shift_in key ys) = Suc (length ys)"
  by (induction ys) simp_all

lemma set_shift_in: "set (shift_in key ys) = insert key (set ys)"
  by (induction ys) auto

lemma desc_shift_in:
  "sorted_wrt (\<lambda>x y. y \<le> x) ys \<Longrightarrow> sorted_wrt (\<lambda>x y. y \<le> x) (shift_in key ys)"
  by (induction ys) (auto simp: set_shift_in)

lemma sorted_rev_shift_in: "sorted xs \<Longrightarrow> sorted (rev (shift_in key (rev xs)))"
  using desc_shift_in[of "rev xs" key] by (simp add: sorted_wrt_rev)

lemma ins_body_spec:
  assumes "a < length s" "i < length (s ! a)"
  shows "ins_body s a (int i) =
           Inr (s[a := rev (shift_in (s ! a ! i) (rev (take i (s ! a)))) @ drop (Suc i) (s ! a)])"
proof -
  let ?key = "s ! a ! i"
  from ins_while_spec[OF assms, of ?key] obtain l j where
    r: "ins_while s a ?key (int i - 1) = Inr (s[a := l], j)" and
    j: "- 1 \<le> j" "j < int i" and
    len: "length l = length (s ! a)" and
    eq: "l[nat (j + 1) := ?key] =
           rev (shift_in ?key (rev (take i (s ! a)))) @ drop (Suc i) (s ! a)"
    by blast
  have g: "getitem s a (int i) = Inr ?key"
    using assms by (simp add: getitem_in)
  have "setitem (s[a := l]) a (j + 1) ?key = Inr (s[a := l[nat (j + 1) := ?key]])"
    using assms j len by (simp add: setitem_in)
  then show ?thesis
    using g r eq by (simp add: ins_body_def)
qed

lemma ins_for_spec:
  "a < length s \<Longrightarrow> n \<le> length (s ! a) \<Longrightarrow> sorted (take i (s ! a)) \<Longrightarrow>
   \<exists>l. ins_for s a [i..<n] = Inr (s[a := l]) \<and> length l = length (s ! a) \<and>
       sorted (take n l) \<and> mset l = mset (s ! a)"
proof (induction "n - i" arbitrary: i s)
  case 0
  then have "n \<le> i" by simp
  then have "take n (s ! a) = take n (take i (s ! a))"
    by (simp add: min_def)
  then have "sorted (take n (s ! a))"
    using 0 by (metis sorted_wrt_take)
  then show ?case
    using \<open>n \<le> i\<close> by (intro exI[of _ "s ! a"]) simp
next
  case (Suc d)
  let ?xs = "s ! a"
  let ?l1 = "rev (shift_in (?xs ! i) (rev (take i ?xs))) @ drop (Suc i) ?xs"
  let ?s1 = "s[a := ?l1]"
  have i: "i < n" "i < length ?xs" using Suc by simp_all
  have b: "ins_body s a (int i) = Inr ?s1"
    using Suc.prems i by (simp add: ins_body_spec)
  have s1a: "?s1 ! a = ?l1" using Suc.prems by simp
  have len1: "length ?l1 = length ?xs"
    using i by (simp add: length_shift_in)
  have "take (Suc i) ?l1 = rev (shift_in (?xs ! i) (rev (take i ?xs)))"
    using i by (simp add: length_shift_in)
  then have srt: "sorted (take (Suc i) (?s1 ! a))"
    using Suc.prems by (simp only: s1a) (simp add: sorted_rev_shift_in)
  have "mset ?l1 = add_mset (?xs ! i) (mset (take i ?xs)) + mset (drop (Suc i) ?xs)"
    by (simp add: mset_shift_in)
  also have "\<dots> = mset (take i ?xs @ ?xs ! i # drop (Suc i) ?xs)"
    by simp
  also have "\<dots> = mset ?xs"
    using i by (simp only: id_take_nth_drop[symmetric])
  finally have ms: "mset ?l1 = mset ?xs" .
  have "d = n - Suc i" using Suc by simp
  moreover have "a < length ?s1" using Suc.prems by simp
  moreover have "n \<le> length (?s1 ! a)" using Suc.prems len1 by (simp only: s1a)
  ultimately obtain l where
    l: "ins_for ?s1 a [Suc i..<n] = Inr (?s1[a := l])" "length l = length (?s1 ! a)"
       "sorted (take n l)" "mset l = mset (?s1 ! a)"
    using Suc.hyps(1)[of "Suc i" ?s1] srt by blast
  have "ins_for s a [i..<n] = Inr (s[a := l])"
    using i b l(1) by (simp add: upt_conv_Cons)
  moreover have "length l = length ?xs" using l(2) len1 by (simp only: s1a)
  moreover have "mset l = mset ?xs" using l(4) ms by (simp only: s1a)
  ultimately show ?case using l(3) by blast
qed

lemma insertion_sort_spec:
  assumes "lst < length s"
  shows "\<exists>l. insertion_sort s lst = Inr (s @ [l], length s) \<and> sorted l \<and> mset l = mset (s ! lst)"
proof -
  let ?s1 = "s @ [s ! lst]"
  let ?a = "length s"
  have a: "?a < length ?s1" by simp
  have xs: "?s1 ! ?a = s ! lst" by simp
  have "sorted (take 1 (?s1 ! ?a))"
    by (cases "?s1 ! ?a") simp_all
  with ins_for_spec[OF a, of "length (?s1 ! ?a)" 1] obtain l where
    l: "ins_for ?s1 ?a [1..<length (?s1 ! ?a)] = Inr (?s1[?a := l])"
       "length l = length (?s1 ! ?a)" "sorted (take (length (?s1 ! ?a)) l)"
       "mset l = mset (?s1 ! ?a)"
    by blast
  have "insertion_sort s lst = Inr (s @ [l], length s)"
    using l(1) by (simp add: insertion_sort_def alloc_def)
  moreover have "sorted l" using l(2,3) by simp
  moreover have "mset l = mset (s ! lst)" using l(4) by (simp only: xs)
  ultimately show ?thesis by blast
qed

subsection \<open>Merge sort\<close>

lemma mset_interleave: "mset (interleave xs ys) = mset xs + mset ys"
  by (induction xs ys rule: interleave.induct) simp_all

lemma set_interleave: "set (interleave xs ys) = set xs \<union> set ys"
  by (induction xs ys rule: interleave.induct) auto

lemma sorted_interleave: "sorted xs \<Longrightarrow> sorted ys \<Longrightarrow> sorted (interleave xs ys)"
  by (induction xs ys rule: interleave.induct) (auto simp: set_interleave)

lemma interleave_Nil2: "interleave xs [] = xs"
  by (cases xs) simp_all

lemma merge_while_stop:
  "\<not> (i < length (s ! left) \<and> j < length (s ! right)) \<Longrightarrow>
   merge_while s left right res i j = Some (s, i, j)"
  by (subst merge_while.simps) (rule if_not_P)

lemma merge_while_left:
  "i < length (s ! left) \<Longrightarrow> j < length (s ! right) \<Longrightarrow> s ! left ! i \<le> s ! right ! j \<Longrightarrow>
   merge_while s left right res i j =
     merge_while (s[res := s ! res @ [s ! left ! i]]) left right res (i + 1) j"
  by (subst merge_while.simps) simp

lemma merge_while_right:
  "i < length (s ! left) \<Longrightarrow> j < length (s ! right) \<Longrightarrow> \<not> s ! left ! i \<le> s ! right ! j \<Longrightarrow>
   merge_while s left right res i j =
     merge_while (s[res := s ! res @ [s ! right ! j]]) left right res i (j + 1)"
  by (subst merge_while.simps) simp

lemma merge_while_spec:
  assumes "left < length s" "right < length s" "res < length s" "res \<noteq> left" "res \<noteq> right"
  shows "\<exists>s1 i' j'. merge_while s left right res i j = Some (s1, i', j') \<and>
           merge_rest s1 left right res i' j' =
             s[res := s ! res @ interleave (drop i (s ! left)) (drop j (s ! right))]"
  using assms
proof (induction "(length (s ! left) - i) + (length (s ! right) - j)" arbitrary: s i j)
  case 0
  then have stop: "\<not> (i < length (s ! left) \<and> j < length (s ! right))" by simp
  have w: "merge_while s left right res i j = Some (s, i, j)"
    using stop by (rule merge_while_stop)
  have "merge_rest s left right res i j =
          s[res := s ! res @ interleave (drop i (s ! left)) (drop j (s ! right))]"
    using 0 by (simp add: merge_rest_def)
  with w show ?case by blast
next
  case (Suc d)
  let ?L = "s ! left" and ?R = "s ! right"
  show ?case
  proof (cases "i < length ?L \<and> j < length ?R")
    case False
    have w: "merge_while s left right res i j = Some (s, i, j)"
      using False by (rule merge_while_stop)
    have "merge_rest s left right res i j =
            s[res := s ! res @ interleave (drop i ?L) (drop j ?R)]"
      using False Suc.prems
      by (cases "i < length ?L")
         (simp_all add: merge_rest_def Let_def interleave_Nil2)
    with w show ?thesis by blast
  next
    case True
    then have dl: "drop i ?L = ?L ! i # drop (Suc i) ?L" and dr: "drop j ?R = ?R ! j # drop (Suc j) ?R"
      by (simp_all add: Cons_nth_drop_Suc)
    show ?thesis
    proof (cases "?L ! i \<le> ?R ! j")
      case le: True
      let ?s' = "s[res := s ! res @ [?L ! i]]"
      have w: "merge_while s left right res i j = merge_while ?s' left right res (i + 1) j"
        using True le by (simp add: merge_while_left)
      have same: "?s' ! left = ?L" "?s' ! right = ?R" "?s' ! res = s ! res @ [?L ! i]"
        using Suc.prems by simp_all
      have "d = (length (?s' ! left) - (i + 1)) + (length (?s' ! right) - j)"
        using Suc.hyps(2) True by (simp only: same) simp
      moreover have "left < length ?s'" "right < length ?s'" "res < length ?s'"
        using Suc.prems by simp_all
      ultimately obtain s1 i' j' where
        r: "merge_while ?s' left right res (i + 1) j = Some (s1, i', j')"
           "merge_rest s1 left right res i' j' =
              ?s'[res := ?s' ! res @ interleave (drop (i + 1) (?s' ! left)) (drop j (?s' ! right))]"
        using Suc.hyps(1)[of ?s' "i + 1" j] Suc.prems(4,5) by blast
      have "?s'[res := ?s' ! res @ interleave (drop (i + 1) (?s' ! left)) (drop j (?s' ! right))] =
            s[res := s ! res @ interleave (drop i ?L) (drop j ?R)]"
        using le by (simp only: same) (simp add: dl dr)
      with r w show ?thesis by simp
    next
      case gt: False
      let ?s' = "s[res := s ! res @ [?R ! j]]"
      have w: "merge_while s left right res i j = merge_while ?s' left right res i (j + 1)"
        using True gt by (simp add: merge_while_right)
      have same: "?s' ! left = ?L" "?s' ! right = ?R" "?s' ! res = s ! res @ [?R ! j]"
        using Suc.prems by simp_all
      have "d = (length (?s' ! left) - i) + (length (?s' ! right) - (j + 1))"
        using Suc.hyps(2) True by (simp only: same) simp
      moreover have "left < length ?s'" "right < length ?s'" "res < length ?s'"
        using Suc.prems by simp_all
      ultimately obtain s1 i' j' where
        r: "merge_while ?s' left right res i (j + 1) = Some (s1, i', j')"
           "merge_rest s1 left right res i' j' =
              ?s'[res := ?s' ! res @ interleave (drop i (?s' ! left)) (drop (j + 1) (?s' ! right))]"
        using Suc.hyps(1)[of ?s' i "j + 1"] Suc.prems(4,5) by blast
      have "?s'[res := ?s' ! res @ interleave (drop i (?s' ! left)) (drop (j + 1) (?s' ! right))] =
            s[res := s ! res @ interleave (drop i ?L) (drop j ?R)]"
        using gt by (simp only: same) (simp add: dl dr)
      with r w show ?thesis by simp
    qed
  qed
qed

lemma merge_py_spec:
  assumes "left < length s" "right < length s"
  shows "merge_py s left right = Some (s @ [interleave (s ! left) (s ! right)], length s)"
proof -
  let ?s0 = "s @ [[]]" and ?res = "length s"
  have "left < length ?s0" "right < length ?s0" "?res < length ?s0" "?res \<noteq> left" "?res \<noteq> right"
    using assms by simp_all
  from merge_while_spec[OF this, of 0 0] obtain s1 i' j' where
    r: "merge_while ?s0 left right ?res 0 0 = Some (s1, i', j')"
       "merge_rest s1 left right ?res i' j' =
          ?s0[?res := ?s0 ! ?res @ interleave (drop 0 (?s0 ! left)) (drop 0 (?s0 ! right))]"
    by blast
  have "?s0[?res := ?s0 ! ?res @ interleave (drop 0 (?s0 ! left)) (drop 0 (?s0 ! right))] =
        s @ [interleave (s ! left) (s ! right)]"
    using assms by (simp add: nth_append)
  with r show ?thesis by (simp add: merge_py_def alloc_def)
qed

lemma prefix_nth: "prefix s s' \<Longrightarrow> p < length s \<Longrightarrow> s' ! p = s ! p"
  by (auto simp: prefix_def nth_append)

lemma merge_sort_spec:
  "arr < length s \<Longrightarrow>
   \<exists>s' r. merge_sort s arr = Some (s', r) \<and> prefix s s' \<and> length s \<le> r \<and> r < length s' \<and>
          sorted (s' ! r) \<and> mset (s' ! r) = mset (s ! arr)"
proof (induction "length (s ! arr)" arbitrary: s arr rule: less_induct)
  case less
  let ?xs = "s ! arr"
  let ?s1 = "s @ [?xs]" and ?a = "length s"
  show ?case
  proof (cases "length ?xs \<le> 1")
    case True
    have "merge_sort s arr = Some (?s1, ?a)"
      using True by (subst merge_sort.simps) (simp add: alloc_def)
    moreover have "sorted ?xs"
      using True by (cases ?xs rule: list.exhaust[case_names Nil Cons]) (simp_all add: le_Suc_eq)
    ultimately show ?thesis by simp
  next
    case False
    let ?mid = "length ?xs div 2"
    let ?s2 = "?s1 @ [take ?mid ?xs]" and ?l = "Suc (length s)"
    have l: "?l < length ?s2" "?s2 ! ?l = take ?mid ?xs"
      by (simp_all add: nth_append)
    have "length (?s2 ! ?l) < length ?xs"
      using False by (simp only: l) simp
    from less.hyps[OF this l(1)] obtain s3 lr where
      r1: "merge_sort ?s2 ?l = Some (s3, lr)" "prefix ?s2 s3" "lr < length s3"
          "sorted (s3 ! lr)" "mset (s3 ! lr) = mset (?s2 ! ?l)"
      by blast
    have a3: "s3 ! ?a = ?xs"
      using prefix_nth[OF r1(2), of ?a] by (simp add: nth_append)
    let ?s4 = "s3 @ [drop ?mid ?xs]" and ?r = "length s3"
    have r: "?r < length ?s4" "?s4 ! ?r = drop ?mid ?xs"
      by simp_all
    have "length (?s4 ! ?r) < length ?xs"
      using False by (simp only: r) simp
    from less.hyps[OF this r(1)] obtain s5 rr where
      r2: "merge_sort ?s4 ?r = Some (s5, rr)" "prefix ?s4 s5" "rr < length s5"
          "sorted (s5 ! rr)" "mset (s5 ! rr) = mset (?s4 ! ?r)"
      by blast
    have lr5: "lr < length s5" "s5 ! lr = s3 ! lr"
      using r1(3) r2(2) prefix_length_le[OF r2(2)] prefix_nth[OF r2(2), of lr]
      by (simp_all add: nth_append)
    have m: "merge_py s5 lr rr = Some (s5 @ [interleave (s5 ! lr) (s5 ! rr)], length s5)"
      using lr5(1) r2(3) by (rule merge_py_spec)
    have run: "merge_sort s arr = Some (s5 @ [interleave (s5 ! lr) (s5 ! rr)], length s5)"
      using False r1(1) r2(1) m a3
      by (subst merge_sort.simps) (simp add: alloc_def Let_def nth_append)
    have "prefix s ?s2" by simp
    then have "prefix s s5"
      using r1(2) r2(2) by (meson prefix_order.order_trans prefix_prefix prefixI)
    then have p: "prefix s (s5 @ [interleave (s5 ! lr) (s5 ! rr)])" "length s \<le> length s5"
      by (simp_all add: prefix_prefix prefix_length_le)
    have "mset (interleave (s5 ! lr) (s5 ! rr)) = mset (take ?mid ?xs) + mset (drop ?mid ?xs)"
      using r1(5) r2(5) by (simp only: mset_interleave lr5 l r)
    also have "\<dots> = mset ?xs"
      by (simp only: union_code append_take_drop_id)
    finally have ms: "mset (interleave (s5 ! lr) (s5 ! rr)) = mset ?xs" .
    have so: "sorted (interleave (s5 ! lr) (s5 ! rr))"
      using r1(4) r2(4) by (simp only: lr5 sorted_interleave)
    show ?thesis
      using run p ms so by simp
  qed
qed

subsection \<open>The built-in sort\<close>

lemma timsort_spec: "timsort s arr = (s @ [sort (s ! arr)], length s)"
  by (simp add: timsort_def py_sorted_def alloc_def)

subsection \<open>The three algorithms sort\<close>

text \<open>
  Claim C1. Called on a list object of the store, each of the three algorithms
  (\<open>insertion_sort\<close>, \<open>merge_sort\<close>, \<open>timsort\<close>) returns, without an exception and
  without running forever, a reference to a list that is in non-decreasing order and
  has the same multiset of elements as the argument.
\<close>

theorem sort_is_sorted_permutation:
  assumes "d < length s"
  shows "(\<exists>s' r. insertion_sort s d = Inr (s', r) \<and> r < length s' \<and>
            sorted (s' ! r) \<and> mset (s' ! r) = mset (s ! d)) \<and>
         (\<exists>s' r. merge_sort s d = Some (s', r) \<and> r < length s' \<and>
            sorted (s' ! r) \<and> mset (s' ! r) = mset (s ! d)) \<and>
         (\<exists>s' r. timsort s d = (s', r) \<and> r < length s' \<and>
            sorted (s' ! r) \<and> mset (s' ! r) = mset (s ! d))"
proof (intro conjI)
  from insertion_sort_spec[OF assms] obtain l where
    "insertion_sort s d = Inr (s @ [l], length s)" "sorted l" "mset l = mset (s ! d)"
    by blast
  then show "\<exists>s' r. insertion_sort s d = Inr (s', r) \<and> r < length s' \<and>
      sorted (s' ! r) \<and> mset (s' ! r) = mset (s ! d)"
    by simp
next
  from merge_sort_spec[OF assms]
  show "\<exists>s' r. merge_sort s d = Some (s', r) \<and> r < length s' \<and>
      sorted (s' ! r) \<and> mset (s' ! r) = mset (s ! d)"
    by blast
next
  show "\<exists>s' r. timsort s d = (s', r) \<and> r < length s' \<and>
      sorted (s' ! r) \<and> mset (s' ! r) = mset (s ! d)"
    by (simp add: timsort_spec)
qed

theorem sort_is_sorted_permutation_witness:
  "(0::nat) < length [[3, 1, 2 :: int]] \<and>
   (\<exists>s' r. insertion_sort [[3, 1, 2]] 0 = Inr (s', r) \<and> r < length s' \<and>
      sorted (s' ! r) \<and> mset (s' ! r) = mset ([[3, 1, 2]] ! 0)) \<and>
   (\<exists>s' r. merge_sort [[3, 1, 2]] 0 = Some (s', r) \<and> r < length s' \<and>
      sorted (s' ! r) \<and> mset (s' ! r) = mset ([[3, 1, 2]] ! 0)) \<and>
   (\<exists>s' r. timsort [[3, 1, 2]] 0 = (s', r) \<and> r < length s' \<and>
      sorted (s' ! r) \<and> mset (s' ! r) = mset ([[3, 1, 2]] ! 0))"
proof -
  have h: "(0::nat) < length [[3, 1, 2 :: int]]" by simp
  show ?thesis
    using h sort_is_sorted_permutation[OF h] by blast
qed

text \<open>
  Claim C6. No algorithm changes the list it is given: after the call the argument
  holds the elements it held before. More than that, every list object that existed
  before the call is unchanged (the store before the call is a prefix of the store
  after it), and the result is a new object.
\<close>

theorem sort_leaves_input_unchanged:
  assumes "d < length s"
  shows "(\<exists>s' r. insertion_sort s d = Inr (s', r) \<and> s' ! d = s ! d \<and> prefix s s' \<and> r \<noteq> d) \<and>
         (\<exists>s' r. merge_sort s d = Some (s', r) \<and> s' ! d = s ! d \<and> prefix s s' \<and> r \<noteq> d) \<and>
         (\<exists>s' r. timsort s d = (s', r) \<and> s' ! d = s ! d \<and> prefix s s' \<and> r \<noteq> d)"
proof (intro conjI)
  from insertion_sort_spec[OF assms] obtain l where
    "insertion_sort s d = Inr (s @ [l], length s)"
    by blast
  then show "\<exists>s' r. insertion_sort s d = Inr (s', r) \<and> s' ! d = s ! d \<and> prefix s s' \<and> r \<noteq> d"
    using assms by (simp add: nth_append)
next
  from merge_sort_spec[OF assms] obtain s' r where
    r: "merge_sort s d = Some (s', r)" "prefix s s'" "r < length s'"
       "mset (s' ! r) = mset (s ! d)" "length s \<le> r"
    by blast
  have same: "s' ! d = s ! d"
    using r(2) assms by (rule prefix_nth)
  have "r \<noteq> d"
    using r(5) assms by simp
  with r same show "\<exists>s' r. merge_sort s d = Some (s', r) \<and> s' ! d = s ! d \<and> prefix s s' \<and> r \<noteq> d"
    by blast
next
  show "\<exists>s' r. timsort s d = (s', r) \<and> s' ! d = s ! d \<and> prefix s s' \<and> r \<noteq> d"
    using assms by (simp add: timsort_spec nth_append)
qed

theorem sort_leaves_input_unchanged_witness:
  "(0::nat) < length [[2, 1 :: int]] \<and>
   (\<exists>s' r. insertion_sort [[2, 1]] 0 = Inr (s', r) \<and> s' ! 0 = [[2, 1]] ! 0 \<and>
      prefix [[2, 1]] s' \<and> r \<noteq> 0) \<and>
   (\<exists>s' r. merge_sort [[2, 1]] 0 = Some (s', r) \<and> s' ! 0 = [[2, 1]] ! 0 \<and>
      prefix [[2, 1]] s' \<and> r \<noteq> 0) \<and>
   (\<exists>s' r. timsort [[2, 1]] 0 = (s', r) \<and> s' ! 0 = [[2, 1]] ! 0 \<and>
      prefix [[2, 1]] s' \<and> r \<noteq> 0)"
proof -
  have h: "(0::nat) < length [[2, 1 :: int]]" by simp
  show ?thesis
    using h sort_leaves_input_unchanged[OF h] by blast
qed

section \<open>Verification of the dataset generator\<close>

lemma nearly_sorted_empty_raises:
  "make_dataset G s 0 ''nearly_sorted'' seed = Inl (ValueError ''empty range for randrange()'')"
  by (simp add: make_dataset_def alloc_def randrange_def)

lemma unknown_pattern_raises:
  "pattern \<notin> {''random'', ''sorted'', ''reversed'', ''nearly_sorted''} \<Longrightarrow>
   make_dataset G s n pattern seed = Inl (ValueError ''Unknown pattern'')"
  by (simp add: make_dataset_def)

lemma size_zero_other_patterns:
  "pattern \<in> {''random'', ''sorted'', ''reversed''} \<Longrightarrow>
   make_dataset G s 0 pattern seed = Inr (s @ [[]], length s)"
  by (auto simp: make_dataset_def alloc_def)

lemma differing_same: "differing xs xs = 0"
  by (induction xs) (simp_all add: differing_def)

lemma differing_update: "differing (xs[i := v]) xs \<le> 1"
proof (induction xs arbitrary: i)
  case Nil
  show ?case by (simp add: differing_def)
next
  case (Cons x xs)
  note same = differing_same[of xs]
  show ?case
  proof (cases i)
    case 0
    then show ?thesis using same by (simp add: differing_def)
  next
    case (Suc k)
    then show ?thesis using Cons[of k] by (simp add: differing_def)
  qed
qed

lemma differing_triangle:
  "length xs = length ys \<Longrightarrow> length ys = length zs \<Longrightarrow>
   differing xs zs \<le> differing xs ys + differing ys zs"
  by (induction xs ys zs rule: list_induct3) (auto simp: differing_def)

lemma differing_swap: "differing (xs[i := v, j := w]) xs \<le> 2"
proof -
  have "differing (xs[i := v, j := w]) xs \<le>
          differing (xs[i := v, j := w]) (xs[i := v]) + differing (xs[i := v]) xs"
    by (rule differing_triangle) simp_all
  also have "\<dots> \<le> 1 + 1"
    by (intro add_mono differing_update)
  finally show ?thesis by simp
qed

lemma randrange_in_range:
  assumes "prng_in_range G" "0 < n"
  shows "\<exists>i g'. randrange G g n = Inr (i, g') \<and> 0 \<le> i \<and> i < n"
proof -
  obtain i g' where r: "randbelow G g n = (i, g')" by (cases "randbelow G g n")
  with assms have "0 \<le> i \<and> i < n"
    unfolding prng_in_range_def by (metis fst_conv)
  with r assms(2) show ?thesis by (simp add: randrange_def)
qed

lemma swap_loop_spec:
  assumes "prng_in_range G" "0 < n"
  shows "a < length s \<Longrightarrow> int (length (s ! a)) = n \<Longrightarrow>
         \<exists>l g'. swap_loop G s a n g k = Inr (s[a := l], g') \<and> length l = length (s ! a) \<and>
               mset l = mset (s ! a) \<and> differing l (s ! a) \<le> 2 * k"
proof (induction k arbitrary: s g)
  case 0
  show ?case by (intro exI[of _ "s ! a"] exI[of _ g]) (simp add: differing_same)
next
  case (Suc k)
  let ?xs = "s ! a"
  from randrange_in_range[OF assms, of g] obtain i g1 where
    i: "randrange G g n = Inr (i, g1)" "0 \<le> i" "i < n" by blast
  from randrange_in_range[OF assms, of g1] obtain j g2 where
    j: "randrange G g1 n = Inr (j, g2)" "0 \<le> j" "j < n" by blast
  let ?i = "nat i" and ?j = "nat j"
  have ij: "?i < length ?xs" "?j < length ?xs"
    using i j Suc.prems by simp_all
  let ?ys = "?xs[?i := ?xs ! ?j, ?j := ?xs ! ?i]"
  let ?s1 = "s[a := ?xs[?i := ?xs ! ?j]]"
  let ?s2 = "s[a := ?ys]"
  have g: "getitem s a j = Inr (?xs ! ?j)" "getitem s a i = Inr (?xs ! ?i)"
    using i j Suc.prems by (simp_all add: getitem_in)
  have s1: "setitem s a i (?xs ! ?j) = Inr ?s1"
    using i Suc.prems by (simp add: setitem_in)
  have "?s1 ! a = ?xs[?i := ?xs ! ?j]" using Suc.prems by simp
  then have s2: "setitem ?s1 a j (?xs ! ?i) = Inr ?s2"
    using j Suc.prems by (simp add: setitem_in)
  have step: "swap_loop G s a n g (Suc k) = swap_loop G ?s2 a n g2 k"
    using i(1) j(1) g s1 s2 by simp
  have a2: "a < length ?s2" and ys: "?s2 ! a = ?ys"
    using Suc.prems by simp_all
  have leny: "length ?ys = length ?xs" by simp
  have "int (length (?s2 ! a)) = n" using Suc.prems by (simp only: ys leny)
  from Suc.IH[OF a2 this, of g2] obtain l g' where
    r: "swap_loop G ?s2 a n g2 k = Inr (?s2[a := l], g')" "length l = length (?s2 ! a)"
       "mset l = mset (?s2 ! a)" "differing l (?s2 ! a) \<le> 2 * k"
    by blast
  have msy: "mset ?ys = mset ?xs"
    using ij by (simp add: mset_swap)
  have d1: "differing l ?ys \<le> 2 * k"
    using r(4) by (simp only: ys)
  have d2: "differing ?ys ?xs \<le> 2"
    by (rule differing_swap)
  have "differing l ?xs \<le> differing l ?ys + differing ?ys ?xs"
    using r(2) by (intro differing_triangle) (simp_all only: ys leny)
  also have "\<dots> \<le> 2 * k + 2"
    using d1 d2 by (rule add_mono)
  finally have d: "differing l ?xs \<le> 2 * Suc k" by simp
  have "swap_loop G s a n g (Suc k) = Inr (s[a := l], g')"
    using step r(1) by simp
  moreover have "length l = length ?xs" using r(2) by (simp only: ys leny)
  moreover have "mset l = mset ?xs" using r(3) msy by (simp only: ys)
  ultimately show ?case using d by blast
qed

lemma nearly_sorted_spec:
  assumes "prng_in_range G" "0 < n"
  shows "\<exists>l. make_dataset G s n ''nearly_sorted'' seed = Inr (s @ [l], length s) \<and>
             length l = nat n \<and> mset l = mset [0..n - 1] \<and>
             differing l [0..n - 1] \<le> 2 * nat (max 1 (n div 100))"
proof -
  let ?s1 = "s @ [[0..n - 1]]" and ?a = "length s"
  have a: "?a < length ?s1" by simp
  have xs: "?s1 ! ?a = [0..n - 1]" by simp
  have "int (length (?s1 ! ?a)) = n" using assms(2) by (simp only: xs) simp
  from swap_loop_spec[OF assms a this, of "seed_state G seed" "nat (max 1 (n div 100))"]
  obtain l g' where
    r: "swap_loop G ?s1 ?a n (seed_state G seed) (nat (max 1 (n div 100))) = Inr (?s1[?a := l], g')"
       "length l = length (?s1 ! ?a)" "mset l = mset (?s1 ! ?a)"
       "differing l (?s1 ! ?a) \<le> 2 * nat (max 1 (n div 100))"
    by blast
  have "make_dataset G s n ''nearly_sorted'' seed = Inr (s @ [l], length s)"
    using r(1) by (simp add: make_dataset_def alloc_def Let_def)
  moreover have "length l = nat n" using r(2) assms(2) by (simp only: xs) simp
  moreover have "mset l = mset [0..n - 1]" using r(3) by (simp only: xs)
  moreover have "differing l [0..n - 1] \<le> 2 * nat (max 1 (n div 100))"
    using r(4) by (simp only: xs)
  ultimately show ?thesis by blast
qed

lemma getitem_same: "s ! a = t ! b \<Longrightarrow> getitem s a i = getitem t b i"
  using arg_cong[of "s ! a" "t ! b" "\<lambda>xs. case py_index xs i of Inl e \<Rightarrow> Inl e | Inr k \<Rightarrow> Inr (xs ! k)"]
  by (simp only: getitem_def)

lemma setitem_cases:
  "(\<exists>e. setitem s a i v = Inl e \<and> (\<forall>t b. t ! b = s ! a \<longrightarrow> setitem t b i v = Inl e)) \<or>
   (\<exists>l. setitem s a i v = Inr (s[a := l]) \<and> (\<forall>t b. t ! b = s ! a \<longrightarrow> setitem t b i v = Inr (t[b := l])))"
  by (cases "py_index (s ! a) i") (auto simp: setitem_def)

lemma swap_loop_indep:
  "a < length s \<Longrightarrow> b < length t \<Longrightarrow> s ! a = t ! b \<Longrightarrow>
   (\<exists>e. swap_loop G s a n g k = Inl e \<and> swap_loop G t b n g k = Inl e) \<or>
   (\<exists>l g'. swap_loop G s a n g k = Inr (s[a := l], g') \<and> swap_loop G t b n g k = Inr (t[b := l], g'))"
proof (induction k arbitrary: s t g)
  case 0
  have "s[a := s ! a] = s" by simp
  moreover have "t[b := s ! a] = t" using 0(3) by (simp only: list_update_id)
  ultimately show ?case by (intro disjI2 exI[of _ "s ! a"] exI[of _ g]) simp
next
  case (Suc k)
  show ?case
  proof (cases "randrange G g n")
    case (Inl e)
    then show ?thesis by simp
  next
    case (Inr p1)
    obtain i g1 where p1: "p1 = (i, g1)" by (cases p1)
    show ?thesis
    proof (cases "randrange G g1 n")
      case (Inl e)
      then show ?thesis using Inr p1 by simp
    next
      case r2: (Inr p2)
      obtain j g2 where p2: "p2 = (j, g2)" by (cases p2)
      note gs = getitem_same[OF Suc.prems(3)]
      show ?thesis
      proof (cases "getitem s a j")
        case (Inl e)
        then show ?thesis using Inr p1 r2 p2 gs[of j] by simp
      next
        case gj: (Inr aj)
        show ?thesis
        proof (cases "getitem s a i")
          case (Inl e)
          then show ?thesis using Inr p1 r2 p2 gj gs[of j] gs[of i] by simp
        next
          case gi: (Inr ai)
          from setitem_cases[of s a i aj] show ?thesis
          proof
            assume "\<exists>e. setitem s a i aj = Inl e \<and> (\<forall>t b. t ! b = s ! a \<longrightarrow> setitem t b i aj = Inl e)"
            then obtain e where "setitem s a i aj = Inl e" "setitem t b i aj = Inl e"
              using Suc.prems(3) by auto
            then show ?thesis using Inr p1 r2 p2 gj gi gs[of j] gs[of i] by simp
          next
            assume "\<exists>l. setitem s a i aj = Inr (s[a := l]) \<and>
                      (\<forall>t b. t ! b = s ! a \<longrightarrow> setitem t b i aj = Inr (t[b := l]))"
            then obtain l1 where
              l1: "setitem s a i aj = Inr (s[a := l1])" "setitem t b i aj = Inr (t[b := l1])"
              using Suc.prems(3) by auto
            let ?s1 = "s[a := l1]" and ?t1 = "t[b := l1]"
            have eq1: "?t1 ! b = ?s1 ! a" using Suc.prems by simp
            from setitem_cases[of ?s1 a j ai] show ?thesis
            proof
              assume "\<exists>e. setitem ?s1 a j ai = Inl e \<and>
                        (\<forall>t b. t ! b = ?s1 ! a \<longrightarrow> setitem t b j ai = Inl e)"
              then obtain e where "setitem ?s1 a j ai = Inl e" "setitem ?t1 b j ai = Inl e"
                using eq1 by blast
              then show ?thesis using Inr p1 r2 p2 gj gi gs[of j] gs[of i] l1 by simp
            next
              assume "\<exists>l. setitem ?s1 a j ai = Inr (?s1[a := l]) \<and>
                        (\<forall>t b. t ! b = ?s1 ! a \<longrightarrow> setitem t b j ai = Inr (t[b := l]))"
              then obtain l2 where
                l2: "setitem ?s1 a j ai = Inr (?s1[a := l2])" "setitem ?t1 b j ai = Inr (?t1[b := l2])"
                using eq1 by blast
              let ?s2 = "s[a := l2]" and ?t2 = "t[b := l2]"
              have st: "swap_loop G s a n g (Suc k) = swap_loop G ?s2 a n g2 k"
                       "swap_loop G t b n g (Suc k) = swap_loop G ?t2 b n g2 k"
                using Inr p1 r2 p2 gj gi gs[of j] gs[of i] l1 l2 by simp_all
              have "a < length ?s2" "b < length ?t2" "?s2 ! a = ?t2 ! b"
                using Suc.prems by simp_all
              from Suc.IH[OF this, of g2] show ?thesis
                by (simp only: st list_update_overwrite)
            qed
          qed
        qed
      qed
    qed
  qed
qed

lemma make_dataset_store_indep:
  "(\<exists>e. make_dataset G s n pattern seed = Inl e \<and> make_dataset G t n pattern seed = Inl e) \<or>
   (\<exists>l. make_dataset G s n pattern seed = Inr (s @ [l], length s) \<and>
        make_dataset G t n pattern seed = Inr (t @ [l], length t))"
proof -
  consider (rand) "pattern = ''random''" | (sorted) "pattern = ''sorted''"
    | (reversed) "pattern = ''reversed''" | (nearly) "pattern = ''nearly_sorted''"
    | (other) "pattern \<notin> {''random'', ''sorted'', ''reversed'', ''nearly_sorted''}"
    by auto
  then show ?thesis
  proof cases
    case rand
    then show ?thesis
      by (cases "random_items G (seed_state G seed) (nat n)")
         (auto simp: make_dataset_def alloc_def)
  next
    case sorted
    then show ?thesis by (simp add: make_dataset_def alloc_def)
  next
    case reversed
    then show ?thesis by (simp add: make_dataset_def alloc_def)
  next
    case nearly
    let ?xs = "[0..n - 1]"
    let ?s1 = "s @ [?xs]" and ?t1 = "t @ [?xs]"
    have "length s < length ?s1" "length t < length ?t1" "?s1 ! length s = ?t1 ! length t"
      by simp_all
    from swap_loop_indep[OF this, of G n "seed_state G seed" "nat (max 1 (n div 100))"]
    show ?thesis
      using nearly by (auto simp: make_dataset_def alloc_def Let_def)
  next
    case other
    then show ?thesis by (simp add: unknown_pattern_raises)
  qed
qed

lemma counter_prng_in_range: "prng_in_range counter_prng"
  by (simp add: prng_in_range_def counter_prng_def)

text \<open>
  Claim C2. An unknown pattern raises \<^verbatim>\<open>ValueError("Unknown pattern")\<close>
  (\<open>unknown_pattern_raises\<close>), and at size 0 the patterns \<^verbatim>\<open>random\<close>, \<^verbatim>\<open>sorted\<close> and
  \<^verbatim>\<open>reversed\<close> give the empty list (\<open>size_zero_other_patterns\<close>). The pattern
  \<^verbatim>\<open>nearly_sorted\<close> does not: \<^verbatim>\<open>max(1, 0 // 100)\<close> asks for one swap, and the first
  \<^verbatim>\<open>rnd.randrange(0)\<close> raises \<^verbatim>\<open>ValueError\<close>, whatever the seed and the generator.
\<close>

theorem nearly_sorted_size_zero_raises:
  "make_dataset G s 0 ''nearly_sorted'' seed = Inl (ValueError ''empty range for randrange()'')"
  by (simp add: make_dataset_def alloc_def randrange_def)

text \<open>
  Claim C7. The sequence \<open>make_dataset\<close> produces depends on the size, the pattern and
  the seed only: called in any two states of the program (stores \<open>s\<close> and \<open>t\<close>) with
  the same three arguments, it either raises the same exception in both or returns
  lists with the same elements in both. It reads no state but the generator it
  creates from the seed.
\<close>

theorem make_dataset_deterministic:
  "(\<exists>e. make_dataset G s n pattern seed = Inl e \<and> make_dataset G t n pattern seed = Inl e) \<or>
   (\<exists>s' a t' b. make_dataset G s n pattern seed = Inr (s', a) \<and>
      make_dataset G t n pattern seed = Inr (t', b) \<and> s' ! a = t' ! b)"
proof -
  from make_dataset_store_indep[of G s n pattern seed t] show ?thesis
  proof
    assume "\<exists>e. make_dataset G s n pattern seed = Inl e \<and> make_dataset G t n pattern seed = Inl e"
    then show ?thesis by (rule disjI1)
  next
    assume "\<exists>l. make_dataset G s n pattern seed = Inr (s @ [l], length s) \<and>
                make_dataset G t n pattern seed = Inr (t @ [l], length t)"
    then obtain l where
      "make_dataset G s n pattern seed = Inr (s @ [l], length s)"
      "make_dataset G t n pattern seed = Inr (t @ [l], length t)"
      by blast
    then show ?thesis by simp
  qed
qed

text \<open>
  Claim C8. For every seed (and every generator whose draws lie in their range),
  \<open>make_dataset 1000 nearly_sorted\<close> returns a list of 1000 elements that is a
  permutation of \<open>0, ..., 999\<close>, the list the pattern \<^verbatim>\<open>sorted\<close> gives, and differs from
  it at no more than 20 positions.
\<close>

theorem nearly_sorted_1000:
  assumes "prng_in_range G"
  shows "make_dataset G s 1000 ''sorted'' seed = Inr (s @ [[0..999]], length s) \<and>
         (\<exists>s' a. make_dataset G s 1000 ''nearly_sorted'' seed = Inr (s', a) \<and>
            length (s' ! a) = 1000 \<and> mset (s' ! a) = mset [0..999] \<and>
            differing (s' ! a) [0..999] \<le> 20)"
proof
  show "make_dataset G s 1000 ''sorted'' seed = Inr (s @ [[0..999]], length s)"
    by (simp add: make_dataset_def alloc_def)
next
  have "(0::int) < 1000" by simp
  from nearly_sorted_spec[OF assms this, of s seed] obtain l where
    "make_dataset G s 1000 ''nearly_sorted'' seed = Inr (s @ [l], length s)"
    "length l = nat 1000" "mset l = mset [0..1000 - 1]"
    "differing l [0..1000 - 1] \<le> 2 * nat (max 1 (1000 div 100))"
    by blast
  then show "\<exists>s' a. make_dataset G s 1000 ''nearly_sorted'' seed = Inr (s', a) \<and>
            length (s' ! a) = 1000 \<and> mset (s' ! a) = mset [0..999] \<and>
            differing (s' ! a) [0..999] \<le> 20"
    by simp
qed

theorem nearly_sorted_1000_witness:
  "prng_in_range counter_prng \<and>
   make_dataset counter_prng [] 1000 ''sorted'' 42 = Inr ([] @ [[0..999]], length ([] :: store)) \<and>
   (\<exists>s' a. make_dataset counter_prng [] 1000 ''nearly_sorted'' 42 = Inr (s', a) \<and>
      length (s' ! a) = 1000 \<and> mset (s' ! a) = mset [0..999] \<and>
      differing (s' ! a) [0..999] \<le> 20)"
  using counter_prng_in_range nearly_sorted_1000[OF counter_prng_in_range, of "[]" 42]
  by blast

section \<open>Verification of the timing harness\<close>

lemma bind_outcome_simps [simp]:
  "bind_outcome None f = None"
  "bind_outcome (Some (Inl e)) f = Some (Inl e)"
  "bind_outcome (Some (Inr x)) f = f x"
  by (simp_all add: bind_outcome_def)

lemma bind_outcome_returns:
  "bind_outcome m f = Some (Inr y) \<Longrightarrow> \<exists>x. m = Some (Inr x) \<and> f x = Some (Inr y)"
  by (auto simp: bind_outcome_def split: option.splits sum.splits)

lemma total_algorithmD:
  "total_algorithm f \<Longrightarrow> d < length s \<Longrightarrow> \<exists>s' r. f s d = Some (Inr (s', r)) \<and> prefix s s'"
  by (simp add: total_algorithm_def)

lemma timeit_spec:
  assumes "total_algorithm f" "data < length (objects w)"
  shows "\<exists>s2 r. f (objects w @ [objects w ! data]) (length (objects w)) = Some (Inr (s2, r)) \<and>
           prefix (objects w @ [objects w ! data]) s2 \<and>
           timeit (stmt E f data) w =
             Some (Inr (w\<lparr>objects := s2,
                           now := now w + trial_duration E (length (events w)) 0,
                           events := events w @ [TimerRead, Copied data (length (objects w)),
                                                 Called (length (objects w)), TimerRead]\<rparr>,
                        Num (trial_duration E (length (events w)) 0)))"
proof -
  let ?s1 = "objects w @ [objects w ! data]" and ?c = "length (objects w)"
  have "?c < length ?s1" by simp
  from total_algorithmD[OF assms(1) this] obtain s2 r where
    r: "f ?s1 ?c = Some (Inr (s2, r))" "prefix ?s1 s2" by blast
  have "timeit (stmt E f data) w =
             Some (Inr (w\<lparr>objects := s2,
                           now := now w + trial_duration E (length (events w)) 0,
                           events := events w @ [TimerRead, Copied data ?c, Called ?c, TimerRead]\<rparr>,
                        Num (trial_duration E (length (events w)) 0)))"
    using r(1)
    by (simp add: timeit_def stmt_def read_timer_def act_def alloc_def Let_def trial_duration_def)
  with r show ?thesis by blast
qed

lemma trial_duration_shift: "trial_duration E (L + 4) i = trial_duration E L (Suc i)"
  by (simp add: trial_duration_def add.commute add.left_commute)

lemma timer_repeat_spec:
  assumes "total_algorithm f"
  shows "data < length (objects w) \<Longrightarrow>
         \<exists>w' es. timer_repeat (stmt E f data) k w r =
                  Some (Inr (w', r @ map (\<lambda>i. Num (trial_duration E (length (events w)) i)) [0..<k])) \<and>
                prefix (objects w) (objects w') \<and>
                events w' = events w @ es \<and>
                trials f data (objects w) es k (objects w') \<and>
                length (copies es) = k \<and> calls es = copies es \<and> distinct (copies es) \<and>
                (\<forall>c \<in> set (copies es).
                   length (objects w) \<le> c \<and> c < length (objects w') \<and>
                   objects w' ! c = objects w ! data)"
proof (induction k arbitrary: w r)
  case 0
  show ?case by simp
next
  case (Suc k)
  let ?L = "length (events w)" and ?c = "length (objects w)"
  let ?s1 = "objects w @ [objects w ! data]"
  let ?blk = "[TimerRead, Copied data ?c, Called ?c, TimerRead]"
  from timeit_spec[OF assms Suc.prems, of E] obtain s2 r2 where
    s2: "f ?s1 ?c = Some (Inr (s2, r2))" "prefix ?s1 s2"
        "timeit (stmt E f data) w =
           Some (Inr (w\<lparr>objects := s2, now := now w + trial_duration E ?L 0,
                         events := events w @ ?blk\<rparr>,
                      Num (trial_duration E ?L 0)))"
    by blast
  let ?w1 = "w\<lparr>objects := s2, now := now w + trial_duration E ?L 0, events := events w @ ?blk\<rparr>"
  have len2: "Suc ?c \<le> length s2"
    using prefix_length_le[OF s2(2)] by simp
  have p02: "prefix (objects w) s2"
    using s2(2) by (meson prefix_order.order_trans prefixI)
  have c2: "s2 ! ?c = objects w ! data"
    using prefix_nth[OF s2(2), of ?c] by simp
  have d2: "s2 ! data = objects w ! data"
    using prefix_nth[OF p02 Suc.prems] .
  have d1: "data < length (objects ?w1)"
    using Suc.prems len2 by simp
  from Suc.IH[OF d1, of "r @ [Num (trial_duration E ?L 0)]"] obtain w' es where
    run1: "timer_repeat (stmt E f data) k ?w1 (r @ [Num (trial_duration E ?L 0)]) =
          Some (Inr (w', (r @ [Num (trial_duration E ?L 0)]) @
                         map (\<lambda>i. Num (trial_duration E (length (events ?w1)) i)) [0..<k]))"
    and p1: "prefix (objects ?w1) (objects w')"
    and ev1: "events w' = events ?w1 @ es"
    and tr1: "trials f data (objects ?w1) es k (objects w')"
    and n1: "length (copies es) = k" and cc1: "calls es = copies es" and dist1: "distinct (copies es)"
    and all1: "\<forall>c \<in> set (copies es).
                 length (objects ?w1) \<le> c \<and> c < length (objects w') \<and>
                 objects w' ! c = objects ?w1 ! data"
    by blast
  have p2: "prefix s2 (objects w')" using p1 by simp
  have L1: "length (events ?w1) = ?L + 4" by simp
  have lst: "(r @ [Num (trial_duration E ?L 0)]) @
               map (\<lambda>i. Num (trial_duration E (length (events ?w1)) i)) [0..<k] =
             r @ map (\<lambda>i. Num (trial_duration E ?L i)) [0..<Suc k]"
    by (simp only: L1 trial_duration_shift map_upt_Suc) simp
  have run: "timer_repeat (stmt E f data) (Suc k) w r =
               Some (Inr (w', r @ map (\<lambda>i. Num (trial_duration E ?L i)) [0..<Suc k]))"
    using s2(3) run1 by (simp only: lst timer_repeat.simps bind_outcome_simps prod.case)
  have p: "prefix (objects w) (objects w')"
    using p02 p2 by (rule prefix_order.order_trans)
  have ev: "events w' = events w @ (?blk @ es)"
    using ev1 by simp
  have "trials f data s2 es k (objects w')" using tr1 by simp
  then have tr: "trials f data (objects w) (?blk @ es) (Suc k) (objects w')"
    using s2(1) by simp
  have cp: "copies (?blk @ es) = ?c # copies es" "calls (?blk @ es) = ?c # calls es"
    by simp_all
  have later: "\<forall>c \<in> set (copies es). Suc ?c \<le> c"
    using all1 len2 by auto
  then have fresh: "?c \<notin> set (copies es)" by auto
  have cw: "?c < length (objects w')"
    using len2 prefix_length_le[OF p2] by simp
  have cv: "objects w' ! ?c = objects w ! data"
    using prefix_nth[OF p2, of ?c] len2 c2 by simp
  have all: "\<forall>c \<in> set (copies (?blk @ es)).
               ?c \<le> c \<and> c < length (objects w') \<and> objects w' ! c = objects w ! data"
    using all1 later cw cv d2 by (auto simp: cp)
  have cnt: "length (copies (?blk @ es)) = Suc k" using n1 by (simp add: cp)
  have cc: "calls (?blk @ es) = copies (?blk @ es)" using cc1 by (simp add: cp)
  have dist: "distinct (copies (?blk @ es))" using dist1 fresh by (simp add: cp)
  show ?case
    using run p ev tr cnt cc dist all
    by (intro exI[of _ w'] exI[of _ "?blk @ es"] conjI)
qed

lemma min_loop_Num: "min_loop (Num a) (map Num xs) = Num (fold min xs a)"
proof (induction xs arbitrary: a)
  case Nil
  show ?case by simp
next
  case (Cons x xs)
  have "(if fl_less (Num x) (Num a) then Num x else Num a) = Num (min x a)"
    by (simp add: fl_less_def min_def)
  then show ?case using Cons[of "min x a"] by simp
qed

lemma py_min_Num:
  assumes "xs \<noteq> []"
  shows "py_min (map Num xs) = Inr (Num (Min (set xs)))"
proof -
  obtain x rest where xs: "xs = x # rest" using assms by (cases xs) auto
  have "py_min (map Num xs) = Inr (Num (fold min rest x))"
    by (simp add: xs py_min_def min_loop_Num)
  also have "fold min rest x = Min (set xs)"
    by (simp only: xs Min.set_eq_fold)
  finally show ?thesis .
qed

lemma time_algorithm_spec:
  assumes "total_algorithm f" "data < length (objects w)" "0 < repeats"
  shows "\<exists>w' es. time_algorithm E f data repeats w =
                  Some (Inr (w', Num (Min (trial_duration E (length (events w)) ` {..<nat repeats})))) \<and>
                prefix (objects w) (objects w') \<and>
                events w' = events w @ es \<and>
                trials f data (objects w) es (nat repeats) (objects w') \<and>
                length (copies es) = nat repeats \<and> calls es = copies es \<and> distinct (copies es) \<and>
                (\<forall>c \<in> set (copies es).
                   length (objects w) \<le> c \<and> c < length (objects w') \<and>
                   objects w' ! c = objects w ! data)"
proof -
  let ?k = "nat repeats" and ?L = "length (events w)"
  from timer_repeat_spec[OF assms(1,2), of E ?k "[]"] obtain w' es where
    run: "timer_repeat (stmt E f data) ?k w [] =
          Some (Inr (w', [] @ map (\<lambda>i. Num (trial_duration E ?L i)) [0..<?k]))"
    and rest: "prefix (objects w) (objects w') \<and>
                events w' = events w @ es \<and>
                trials f data (objects w) es ?k (objects w') \<and>
                length (copies es) = ?k \<and> calls es = copies es \<and> distinct (copies es) \<and>
                (\<forall>c \<in> set (copies es).
                   length (objects w) \<le> c \<and> c < length (objects w') \<and>
                   objects w' ! c = objects w ! data)"
    by blast
  have ne: "map (trial_duration E ?L) [0..<?k] \<noteq> []"
    using assms(3) by simp
  have "map (\<lambda>i. Num (trial_duration E ?L i)) [0..<?k] = map Num (map (trial_duration E ?L) [0..<?k])"
    by simp
  then have "py_min (map (\<lambda>i. Num (trial_duration E ?L i)) [0..<?k]) =
               Inr (Num (Min (set (map (trial_duration E ?L) [0..<?k]))))"
    using py_min_Num[OF ne] by (simp only:)
  also have "set (map (trial_duration E ?L) [0..<?k]) = trial_duration E ?L ` {..<?k}"
    by (simp add: atLeast0LessThan)
  finally have m: "py_min (map (\<lambda>i. Num (trial_duration E ?L i)) [0..<?k]) =
                     Inr (Num (Min (trial_duration E ?L ` {..<?k})))" .
  have "time_algorithm E f data repeats w =
          Some (Inr (w', Num (Min (trial_duration E ?L ` {..<?k}))))"
    using run m by (simp add: time_algorithm_def)
  with rest show ?thesis by (intro exI[of _ w'] exI[of _ es] conjI) simp_all
qed

lemma time_algorithm_returns:
  assumes "total_algorithm f" "data < length (objects w)" "0 < repeats"
  shows "\<exists>w' t. time_algorithm E f data repeats w = Some (Inr (w', t)) \<and>
                prefix (objects w) (objects w')"
  using time_algorithm_spec[OF assms, of E] by blast

lemma insertion_algorithm_total: "total_algorithm insertion_algorithm"
  unfolding total_algorithm_def
proof (intro allI impI)
  fix s :: store and d
  assume "d < length s"
  from insertion_sort_spec[OF this] obtain l where
    "insertion_sort s d = Inr (s @ [l], length s)" by blast
  then show "\<exists>s' r. insertion_algorithm s d = Some (Inr (s', r)) \<and> prefix s s'"
    by (simp add: insertion_algorithm_def)
qed

lemma merge_algorithm_total: "total_algorithm merge_algorithm"
  unfolding total_algorithm_def
proof (intro allI impI)
  fix s :: store and d
  assume "d < length s"
  from merge_sort_spec[OF this] obtain s' r where
    "merge_sort s d = Some (s', r)" "prefix s s'" by blast
  then show "\<exists>s' r. merge_algorithm s d = Some (Inr (s', r)) \<and> prefix s s'"
    by (simp add: merge_algorithm_def)
qed

lemma timsort_algorithm_total: "total_algorithm timsort_algorithm"
  by (simp add: total_algorithm_def timsort_algorithm_def timsort_spec)

lemma ALGORITHMS_total: "(name, f) \<in> set ALGORITHMS \<Longrightarrow> total_algorithm f"
  by (auto simp: ALGORITHMS_def insertion_algorithm_total merge_algorithm_total
      timsort_algorithm_total)





section \<open>Verification of the orchestrator\<close>

lemma bench_algorithms_keys:
  "bench_algorithms E algs p n data repeats w rows = Some (Inr (w', rows')) \<Longrightarrow>
   map row_key rows' = map row_key rows @ map (\<lambda>a. (p, n, a)) (map fst algs)"
proof (induction algs arbitrary: w rows)
  case Nil
  then show ?case by simp
next
  case (Cons af algs)
  obtain name f where af: "af = (name, f)" by (cases af)
  from Cons.prems obtain x where
    x: "time_algorithm E f data repeats w = Some (Inr x)"
       "(case x of (w1, t) \<Rightarrow> bench_algorithms E algs p n data repeats w1
           (rows @ [\<lparr>row_pattern = p, row_n = n, row_algorithm = name, row_time_sec = t\<rparr>])) =
        Some (Inr (w', rows'))"
    unfolding af bench_algorithms.simps by (blast dest: bind_outcome_returns)
  obtain w1 t where "x = (w1, t)" by (cases x)
  with x(2) have "bench_algorithms E algs p n data repeats w1
           (rows @ [\<lparr>row_pattern = p, row_n = n, row_algorithm = name, row_time_sec = t\<rparr>]) =
        Some (Inr (w', rows'))" by simp
  from Cons.IH[OF this] show ?case by (simp add: af row_key_def)
qed

lemma bench_algorithms_large_keys:
  "bench_algorithms_large E algs p n data repeats w rows = Some (Inr (w', rows')) \<Longrightarrow>
   map row_key rows' =
     map row_key rows @ map (\<lambda>a. (p, n, a)) (filter (\<lambda>a. a \<noteq> ''Insertion'') (map fst algs))"
proof (induction algs arbitrary: w rows)
  case Nil
  then show ?case by simp
next
  case (Cons af algs)
  obtain name f where af: "af = (name, f)" by (cases af)
  show ?case
  proof (cases "name = ''Insertion''")
    case True
    with Cons.prems have "bench_algorithms_large E algs p n data repeats w rows = Some (Inr (w', rows'))"
      by (simp add: af)
    from Cons.IH[OF this] show ?thesis using True by (simp add: af)
  next
    case False
    from Cons.prems False obtain x where
      x: "time_algorithm E f data repeats w = Some (Inr x)"
         "(case x of (w1, t) \<Rightarrow> bench_algorithms_large E algs p n data repeats w1
             (rows @ [\<lparr>row_pattern = p, row_n = n, row_algorithm = name, row_time_sec = t\<rparr>])) =
          Some (Inr (w', rows'))"
      unfolding af bench_algorithms_large.simps by (auto dest: bind_outcome_returns)
    obtain w1 t where "x = (w1, t)" by (cases x)
    with x(2) have "bench_algorithms_large E algs p n data repeats w1
             (rows @ [\<lparr>row_pattern = p, row_n = n, row_algorithm = name, row_time_sec = t\<rparr>]) =
          Some (Inr (w', rows'))" by simp
    from Cons.IH[OF this] show ?thesis using False by (simp add: af row_key_def)
  qed
qed

lemma bench_sizes_keys:
  "bench_sizes G E ns p repeats w rows = Some (Inr (w', rows')) \<Longrightarrow>
   map row_key rows' = map row_key rows @ small_keys p ns"
proof (induction ns arbitrary: w rows)
  case Nil
  then show ?case by (simp add: small_keys_def)
next
  case (Cons n ns)
  from Cons.prems obtain s data where
    md: "make_dataset G (objects w) n p 123 = Inr (s, data)"
    by (cases "make_dataset G (objects w) n p 123") auto
  with Cons.prems obtain x where
    x: "bench_algorithms E ALGORITHMS p n data repeats (w\<lparr>objects := s\<rparr>) rows = Some (Inr x)"
       "(case x of (w1, rows1) \<Rightarrow> bench_sizes G E ns p repeats w1 rows1) = Some (Inr (w', rows'))"
    by (auto dest: bind_outcome_returns)
  obtain w1 rows1 where x': "x = (w1, rows1)" by (cases x)
  from x(1) have k1: "map row_key rows1 = map row_key rows @ map (\<lambda>a. (p, n, a)) (map fst ALGORITHMS)"
    unfolding x' by (rule bench_algorithms_keys)
  from x(2) have "bench_sizes G E ns p repeats w1 rows1 = Some (Inr (w', rows'))"
    by (simp add: x')
  from Cons.IH[OF this] show ?case
    by (simp add: k1 small_keys_def)
qed

lemma bench_large_sizes_keys:
  "bench_large_sizes G E ns p repeats w rows = Some (Inr (w', rows')) \<Longrightarrow>
   map row_key rows' = map row_key rows @ large_keys p ns"
proof (induction ns arbitrary: w rows)
  case Nil
  then show ?case by (simp add: large_keys_def)
next
  case (Cons n ns)
  from Cons.prems obtain s data where
    md: "make_dataset G (objects w) n p 777 = Inr (s, data)"
    by (cases "make_dataset G (objects w) n p 777") auto
  with Cons.prems obtain x where
    x: "bench_algorithms_large E ALGORITHMS p n data repeats (w\<lparr>objects := s\<rparr>) rows = Some (Inr x)"
       "(case x of (w1, rows1) \<Rightarrow> bench_large_sizes G E ns p repeats w1 rows1) = Some (Inr (w', rows'))"
    by (auto dest: bind_outcome_returns)
  obtain w1 rows1 where x': "x = (w1, rows1)" by (cases x)
  from x(1) have k1: "map row_key rows1 =
      map row_key rows @ map (\<lambda>a. (p, n, a)) (filter (\<lambda>a. a \<noteq> ''Insertion'') (map fst ALGORITHMS))"
    unfolding x' by (rule bench_algorithms_large_keys)
  from x(2) have "bench_large_sizes G E ns p repeats w1 rows1 = Some (Inr (w', rows'))"
    by (simp add: x')
  from Cons.IH[OF this] show ?case
    by (simp add: k1 large_keys_def)
qed

lemma bench_patterns_keys:
  "bench_patterns G E sizes large_sizes ps repeats w rows = Some (Inr (w', rows')) \<Longrightarrow>
   map row_key rows' = map row_key rows @ expected_keys sizes large_sizes ps"
proof (induction ps arbitrary: w rows)
  case Nil
  then show ?case by (simp add: expected_keys_def)
next
  case (Cons p ps)
  from Cons.prems obtain x where
    x: "bench_sizes G E sizes p repeats w rows = Some (Inr x)"
       "(case x of (w1, rows1) \<Rightarrow>
           bind_outcome (bench_large_sizes G E large_sizes p repeats w1 rows1) (\<lambda>(w2, rows2).
             bench_patterns G E sizes large_sizes ps repeats w2 rows2)) = Some (Inr (w', rows'))"
    unfolding bench_patterns.simps by (blast dest: bind_outcome_returns)
  obtain w1 rows1 where x': "x = (w1, rows1)" by (cases x)
  from x(2) obtain y where
    y: "bench_large_sizes G E large_sizes p repeats w1 rows1 = Some (Inr y)"
       "(case y of (w2, rows2) \<Rightarrow> bench_patterns G E sizes large_sizes ps repeats w2 rows2) =
          Some (Inr (w', rows'))"
    unfolding x' prod.case by (blast dest: bind_outcome_returns)
  obtain w2 rows2 where y': "y = (w2, rows2)" by (cases y)
  have k1: "map row_key rows1 = map row_key rows @ small_keys p sizes"
    using x(1) unfolding x' by (rule bench_sizes_keys)
  have k2: "map row_key rows2 = map row_key rows1 @ large_keys p large_sizes"
    using y(1) unfolding y' by (rule bench_large_sizes_keys)
  from y(2) have "bench_patterns G E sizes large_sizes ps repeats w2 rows2 = Some (Inr (w', rows'))"
    by (simp add: y')
  from Cons.IH[OF this] show ?case
    by (simp add: k1 k2 expected_keys_def)
qed

lemma run_benchmarks_keys:
  "run_benchmarks G E sizes large_sizes patterns repeats w = Some (Inr (w', rows)) \<Longrightarrow>
   map row_key rows = expected_keys sizes large_sizes patterns"
  unfolding run_benchmarks_def by (drule bench_patterns_keys) simp

lemma random_items_returns: "\<exists>vs g'. random_items G g k = Inr (vs, g')"
proof (induction k arbitrary: g)
  case 0
  show ?case by simp
next
  case (Suc k)
  obtain v g1 where d: "randbelow G g (1000000 + 1 - 0) = (v, g1)"
    by (cases "randbelow G g (1000000 + 1 - 0)")
  then have r: "randint G g 0 1000000 = Inr (0 + v, g1)"
    by (simp add: randint_def)
  from Suc[of g1] obtain vs g2 where "random_items G g1 k = Inr (vs, g2)" by blast
  with r show ?case by simp
qed

lemma make_dataset_returns:
  assumes "pattern \<in> {''random'', ''sorted'', ''reversed'', ''nearly_sorted''}"
    and "pattern = ''nearly_sorted'' \<longrightarrow> prng_in_range G \<and> 0 < n"
  shows "\<exists>l. make_dataset G s n pattern seed = Inr (s @ [l], length s)"
proof -
  consider (rand) "pattern = ''random''" | (sorted) "pattern = ''sorted''"
    | (reversed) "pattern = ''reversed''" | (nearly) "pattern = ''nearly_sorted''"
    using assms(1) by auto
  then show ?thesis
  proof cases
    case rand
    from random_items_returns[of G "seed_state G seed" "nat n"] obtain vs g' where
      "random_items G (seed_state G seed) (nat n) = Inr (vs, g')" by blast
    then show ?thesis using rand by (simp add: make_dataset_def alloc_def)
  next
    case sorted
    then show ?thesis by (simp add: make_dataset_def alloc_def)
  next
    case reversed
    then show ?thesis by (simp add: make_dataset_def alloc_def)
  next
    case nearly
    with assms(2) have "prng_in_range G" "0 < n" by simp_all
    from nearly_sorted_spec[OF this, of s seed] show ?thesis
      using nearly by blast
  qed
qed

lemma bench_algorithms_returns:
  assumes "0 < repeats"
  shows "\<forall>(name, f) \<in> set algs. total_algorithm f \<Longrightarrow> data < length (objects w) \<Longrightarrow>
         \<exists>w' rows'. bench_algorithms E algs p n data repeats w rows = Some (Inr (w', rows')) \<and>
                    prefix (objects w) (objects w')"
proof (induction algs arbitrary: w rows)
  case Nil
  show ?case by simp
next
  case (Cons af algs)
  obtain name f where af: "af = (name, f)" by (cases af)
  have tf: "total_algorithm f" using Cons.prems(1) by (simp add: af)
  from time_algorithm_returns[OF tf Cons.prems(2) assms, of E] obtain w1 t where
    t: "time_algorithm E f data repeats w = Some (Inr (w1, t))" "prefix (objects w) (objects w1)"
    by blast
  have d1: "data < length (objects w1)"
    using Cons.prems(2) prefix_length_le[OF t(2)] by simp
  have "\<forall>(name, f) \<in> set algs. total_algorithm f" using Cons.prems(1) by simp
  from Cons.IH[OF this d1,
      of "rows @ [\<lparr>row_pattern = p, row_n = n, row_algorithm = name, row_time_sec = t\<rparr>]"]
  obtain w' rows' where
    r: "bench_algorithms E algs p n data repeats w1
          (rows @ [\<lparr>row_pattern = p, row_n = n, row_algorithm = name, row_time_sec = t\<rparr>]) =
        Some (Inr (w', rows'))" "prefix (objects w1) (objects w')"
    by blast
  have "bench_algorithms E (af # algs) p n data repeats w rows = Some (Inr (w', rows'))"
    using t(1) r(1) by (simp add: af)
  moreover have "prefix (objects w) (objects w')"
    using t(2) r(2) by (rule prefix_order.order_trans)
  ultimately show ?case by blast
qed

lemma bench_algorithms_large_returns:
  assumes "0 < repeats"
  shows "\<forall>(name, f) \<in> set algs. total_algorithm f \<Longrightarrow> data < length (objects w) \<Longrightarrow>
         \<exists>w' rows'. bench_algorithms_large E algs p n data repeats w rows = Some (Inr (w', rows')) \<and>
                    prefix (objects w) (objects w')"
proof (induction algs arbitrary: w rows)
  case Nil
  show ?case by simp
next
  case (Cons af algs)
  obtain name f where af: "af = (name, f)" by (cases af)
  have rest: "\<forall>(name, f) \<in> set algs. total_algorithm f" using Cons.prems(1) by simp
  show ?case
  proof (cases "name = ''Insertion''")
    case True
    from Cons.IH[OF rest Cons.prems(2), of rows] show ?thesis
      using True by (simp add: af)
  next
    case False
    have tf: "total_algorithm f" using Cons.prems(1) by (simp add: af)
    from time_algorithm_returns[OF tf Cons.prems(2) assms, of E] obtain w1 t where
      t: "time_algorithm E f data repeats w = Some (Inr (w1, t))" "prefix (objects w) (objects w1)"
      by blast
    have d1: "data < length (objects w1)"
      using Cons.prems(2) prefix_length_le[OF t(2)] by simp
    from Cons.IH[OF rest d1,
        of "rows @ [\<lparr>row_pattern = p, row_n = n, row_algorithm = name, row_time_sec = t\<rparr>]"]
    obtain w' rows' where
      r: "bench_algorithms_large E algs p n data repeats w1
            (rows @ [\<lparr>row_pattern = p, row_n = n, row_algorithm = name, row_time_sec = t\<rparr>]) =
          Some (Inr (w', rows'))" "prefix (objects w1) (objects w')"
      by blast
    have "bench_algorithms_large E (af # algs) p n data repeats w rows = Some (Inr (w', rows'))"
      using t(1) r(1) False by (simp add: af)
    moreover have "prefix (objects w) (objects w')"
      using t(2) r(2) by (rule prefix_order.order_trans)
    ultimately show ?thesis by blast
  qed
qed

lemma ALGORITHMS_all_total: "\<forall>(name, f) \<in> set ALGORITHMS. total_algorithm f"
  using ALGORITHMS_total by blast

lemma bench_sizes_returns:
  assumes "0 < repeats" "p \<in> {''random'', ''sorted'', ''reversed'', ''nearly_sorted''}"
  shows "p = ''nearly_sorted'' \<longrightarrow> prng_in_range G \<and> (\<forall>n \<in> set ns. 0 < n) \<Longrightarrow>
         \<exists>w' rows'. bench_sizes G E ns p repeats w rows = Some (Inr (w', rows'))"
proof (induction ns arbitrary: w rows)
  case Nil
  show ?case by simp
next
  case (Cons n ns)
  have "p = ''nearly_sorted'' \<longrightarrow> prng_in_range G \<and> 0 < n" using Cons.prems by simp
  from make_dataset_returns[OF assms(2) this, of "objects w" 123] obtain l where
    md: "make_dataset G (objects w) n p 123 = Inr (objects w @ [l], length (objects w))" by blast
  let ?w0 = "w\<lparr>objects := objects w @ [l]\<rparr>"
  have "length (objects w) < length (objects ?w0)" by simp
  from bench_algorithms_returns[OF assms(1) ALGORITHMS_all_total this, of E p n rows]
  obtain w1 rows1 where
    b: "bench_algorithms E ALGORITHMS p n (length (objects w)) repeats ?w0 rows = Some (Inr (w1, rows1))"
    by blast
  have "p = ''nearly_sorted'' \<longrightarrow> prng_in_range G \<and> (\<forall>n \<in> set ns. 0 < n)"
    using Cons.prems by simp
  from Cons.IH[OF this, of w1 rows1] obtain w' rows' where
    "bench_sizes G E ns p repeats w1 rows1 = Some (Inr (w', rows'))" by blast
  then show ?case using md b by simp
qed

lemma bench_large_sizes_returns:
  assumes "0 < repeats" "p \<in> {''random'', ''sorted'', ''reversed'', ''nearly_sorted''}"
  shows "p = ''nearly_sorted'' \<longrightarrow> prng_in_range G \<and> (\<forall>n \<in> set ns. 0 < n) \<Longrightarrow>
         \<exists>w' rows'. bench_large_sizes G E ns p repeats w rows = Some (Inr (w', rows'))"
proof (induction ns arbitrary: w rows)
  case Nil
  show ?case by simp
next
  case (Cons n ns)
  have "p = ''nearly_sorted'' \<longrightarrow> prng_in_range G \<and> 0 < n" using Cons.prems by simp
  from make_dataset_returns[OF assms(2) this, of "objects w" 777] obtain l where
    md: "make_dataset G (objects w) n p 777 = Inr (objects w @ [l], length (objects w))" by blast
  let ?w0 = "w\<lparr>objects := objects w @ [l]\<rparr>"
  have "length (objects w) < length (objects ?w0)" by simp
  from bench_algorithms_large_returns[OF assms(1) ALGORITHMS_all_total this, of E p n rows]
  obtain w1 rows1 where
    b: "bench_algorithms_large E ALGORITHMS p n (length (objects w)) repeats ?w0 rows =
          Some (Inr (w1, rows1))"
    by blast
  have "p = ''nearly_sorted'' \<longrightarrow> prng_in_range G \<and> (\<forall>n \<in> set ns. 0 < n)"
    using Cons.prems by simp
  from Cons.IH[OF this, of w1 rows1] obtain w' rows' where
    "bench_large_sizes G E ns p repeats w1 rows1 = Some (Inr (w', rows'))" by blast
  then show ?case using md b by simp
qed

lemma bench_patterns_returns:
  "valid_config G sizes large_sizes ps repeats \<Longrightarrow>
   \<exists>w' rows'. bench_patterns G E sizes large_sizes ps repeats w rows = Some (Inr (w', rows'))"
proof (induction ps arbitrary: w rows)
  case Nil
  show ?case by simp
next
  case (Cons p ps)
  have rp: "0 < repeats" and p: "p \<in> {''random'', ''sorted'', ''reversed'', ''nearly_sorted''}"
    using Cons.prems by (simp_all add: valid_config_def)
  have ns: "p = ''nearly_sorted'' \<longrightarrow> prng_in_range G \<and> (\<forall>n \<in> set sizes. 0 < n)"
    and nl: "p = ''nearly_sorted'' \<longrightarrow> prng_in_range G \<and> (\<forall>n \<in> set large_sizes. 0 < n)"
    using Cons.prems by (auto simp: valid_config_def)
  from bench_sizes_returns[OF rp p ns, of E w rows] obtain w1 rows1 where
    a: "bench_sizes G E sizes p repeats w rows = Some (Inr (w1, rows1))" by blast
  from bench_large_sizes_returns[OF rp p nl, of E w1 rows1] obtain w2 rows2 where
    b: "bench_large_sizes G E large_sizes p repeats w1 rows1 = Some (Inr (w2, rows2))" by blast
  have "valid_config G sizes large_sizes ps repeats"
    using Cons.prems by (auto simp: valid_config_def)
  from Cons.IH[OF this, of w2 rows2] obtain w' rows' where
    "bench_patterns G E sizes large_sizes ps repeats w2 rows2 = Some (Inr (w', rows'))" by blast
  then show ?case using a b by simp
qed

lemma run_benchmarks_returns:
  "valid_config G sizes large_sizes patterns repeats \<Longrightarrow>
   \<exists>w' rows. run_benchmarks G E sizes large_sizes patterns repeats w = Some (Inr (w', rows))"
  unfolding run_benchmarks_def by (rule bench_patterns_returns)

lemma count_by_key:
  "length (filter (\<lambda>r. row_n r = m) rows) = length (filter (\<lambda>k. fst (snd k) = m) (map row_key rows))"
  by (induction rows) (simp_all add: row_key_def)

lemma bind_outcome_assoc:
  "bind_outcome (bind_outcome m f) g = bind_outcome m (\<lambda>x. bind_outcome (f x) g)"
  by (auto simp: bind_outcome_def split: option.splits sum.splits)

lemma bind_outcome_unit: "bind_outcome m (\<lambda>(w, rs). Some (Inr (w, [] @ rs))) = m"
  by (auto simp: bind_outcome_def split: option.splits sum.splits)

lemma bind_outcome_pair: "bind_outcome m (\<lambda>(w, rs). Some (Inr (w, rs))) = m"
  by (auto simp: bind_outcome_def split: option.splits sum.splits)

lemma bench_algorithms_measure_each:
  "bench_algorithms E algs p n data repeats w rows =
     bind_outcome (measure_each E repeats p n data algs w) (\<lambda>(w', rs). Some (Inr (w', rows @ rs)))"
proof (induction algs arbitrary: w rows)
  case Nil
  show ?case by simp
next
  case (Cons af algs)
  obtain name f where af: "af = (name, f)" by (cases af)
  show ?case
    unfolding af bench_algorithms.simps measure_each.simps Cons
    by (simp add: bind_outcome_assoc split_def)
qed

lemma bench_algorithms_large_measure_each:
  "bench_algorithms_large E algs p n data repeats w rows =
     bind_outcome
       (measure_each E repeats p n data (filter (\<lambda>(name, f). name \<noteq> ''Insertion'') algs) w)
       (\<lambda>(w', rs). Some (Inr (w', rows @ rs)))"
proof (induction algs arbitrary: w rows)
  case Nil
  show ?case by simp
next
  case (Cons af algs)
  obtain name f where af: "af = (name, f)" by (cases af)
  show ?case
  proof (cases "name = ''Insertion''")
    case True
    then show ?thesis by (simp add: af Cons)
  next
    case False
    have flt: "filter (\<lambda>(name, f). name \<noteq> ''Insertion'') ((name, f) # algs) =
                 (name, f) # filter (\<lambda>(name, f). name \<noteq> ''Insertion'') algs"
      using False by simp
    have "bench_algorithms_large E ((name, f) # algs) p n data repeats w rows =
            bind_outcome (time_algorithm E f data repeats w) (\<lambda>(w', t).
              bench_algorithms_large E algs p n data repeats w'
                (rows @ [\<lparr>row_pattern = p, row_n = n, row_algorithm = name, row_time_sec = t\<rparr>]))"
      using False by simp
    then show ?thesis
      unfolding af flt measure_each.simps Cons
      by (simp add: bind_outcome_assoc split_def)
  qed
qed

lemma perform_jobs_append:
  "perform_jobs G E repeats (js1 @ js2) w =
     bind_outcome (perform_jobs G E repeats js1 w) (\<lambda>(w1, rows1).
       bind_outcome (perform_jobs G E repeats js2 w1) (\<lambda>(w2, rows2).
         Some (Inr (w2, rows1 @ rows2))))"
proof (induction js1 arbitrary: w)
  case Nil
  show ?case by (simp add: bind_outcome_pair)
next
  case (Cons j js1)
  show ?case
    unfolding append_Cons perform_jobs.simps Cons
    by (simp add: bind_outcome_assoc split_def)
qed

lemma bench_sizes_perform_jobs:
  "bench_sizes G E ns p repeats w rows =
     bind_outcome (perform_jobs G E repeats (map (\<lambda>n. (p, n, 123, ALGORITHMS)) ns) w)
       (\<lambda>(w', rs). Some (Inr (w', rows @ rs)))"
proof (induction ns arbitrary: w rows)
  case Nil
  show ?case by simp
next
  case (Cons n ns)
  show ?case
  proof (cases "make_dataset G (objects w) n p 123")
    case (Inl e)
    then show ?thesis by (simp add: perform_job_def)
  next
    case (Inr sd)
    obtain s data where sd: "sd = (s, data)" by (cases sd)
    show ?thesis
      using Inr unfolding sd
      by (simp add: perform_job_def Cons bench_algorithms_measure_each bind_outcome_assoc split_def)
  qed
qed

lemma bench_large_sizes_perform_jobs:
  "bench_large_sizes G E ns p repeats w rows =
     bind_outcome
       (perform_jobs G E repeats
          (map (\<lambda>n. (p, n, 777, filter (\<lambda>(name, f). name \<noteq> ''Insertion'') ALGORITHMS)) ns) w)
       (\<lambda>(w', rs). Some (Inr (w', rows @ rs)))"
proof (induction ns arbitrary: w rows)
  case Nil
  show ?case by simp
next
  case (Cons n ns)
  show ?case
  proof (cases "make_dataset G (objects w) n p 777")
    case (Inl e)
    then show ?thesis by (simp add: perform_job_def)
  next
    case (Inr sd)
    obtain s data where sd: "sd = (s, data)" by (cases sd)
    show ?thesis
      using Inr unfolding sd
      by (simp add: perform_job_def Cons bench_algorithms_large_measure_each bind_outcome_assoc
          split_def)
  qed
qed

lemma bench_patterns_perform_jobs:
  "bench_patterns G E sizes large_sizes ps repeats w rows =
     bind_outcome (perform_jobs G E repeats (jobs sizes large_sizes ps) w)
       (\<lambda>(w', rs). Some (Inr (w', rows @ rs)))"
proof (induction ps arbitrary: w rows)
  case Nil
  show ?case by (simp add: jobs_def)
next
  case (Cons p ps)
  have j: "jobs sizes large_sizes (p # ps) =
             map (\<lambda>n. (p, n, 123, ALGORITHMS)) sizes @
             (map (\<lambda>n. (p, n, 777, filter (\<lambda>(name, f). name \<noteq> ''Insertion'') ALGORITHMS))
                large_sizes @
              jobs sizes large_sizes ps)"
    by (simp add: jobs_def)
  show ?case
    unfolding j perform_jobs_append bench_patterns.simps
      bench_sizes_perform_jobs bench_large_sizes_perform_jobs Cons
    by (simp add: bind_outcome_assoc split_def)
qed

lemma run_benchmarks_perform_jobs:
  "run_benchmarks G E sizes large_sizes patterns repeats w =
     perform_jobs G E repeats (jobs sizes large_sizes patterns) w"
  unfolding run_benchmarks_def bench_patterns_perform_jobs
  by (rule bind_outcome_unit)

text \<open>
  Claim C4, as the code has it. On every valid configuration (supported patterns,
  positive \<open>repeats\<close>, and positive sizes and a generator that draws in range where
  \<^verbatim>\<open>nearly_sorted\<close> is asked for) the run returns, and what it returns is what
  performing the jobs of its plan returns, state and rows: for each pattern in order,
  one dataset of seed 123 for each small size, measured by \<open>time_algorithm\<close> with every
  registered algorithm in registration order, then one dataset of seed 777 for each
  large size, measured with every registered algorithm but \<^verbatim>\<open>Insertion\<close>; each dataset
  is generated once and each measurement gives one row, which holds its pattern, its
  size, the name of the algorithm and the time measured. The keys of the rows are so
  the expected keys in the expected order. With small sizes \<open>[10]\<close>, large sizes
  \<open>[100]\<close> and the pattern \<^verbatim>\<open>sorted\<close> the run returns three rows for size 10 and two
  for size 100.
\<close>

theorem run_benchmarks_row_order:
  assumes "valid_config G sizes large_sizes patterns repeats"
  shows "(\<exists>w' rows.
            run_benchmarks G E sizes large_sizes patterns repeats w = Some (Inr (w', rows)) \<and>
            perform_jobs G E repeats (jobs sizes large_sizes patterns) w = Some (Inr (w', rows)) \<and>
            map row_key rows = expected_keys sizes large_sizes patterns) \<and>
         (\<exists>w' rows.
            run_benchmarks G E [10] [100] [''sorted''] repeats w = Some (Inr (w', rows)) \<and>
            perform_jobs G E repeats
              [(''sorted'', 10, 123,
                  [(''Insertion'', insertion_algorithm), (''Merge'', merge_algorithm),
                   (''Timsort (built-in)'', timsort_algorithm)]),
               (''sorted'', 100, 777,
                  [(''Merge'', merge_algorithm), (''Timsort (built-in)'', timsort_algorithm)])] w =
              Some (Inr (w', rows)) \<and>
            map row_key rows =
              [(''sorted'', 10, ''Insertion''), (''sorted'', 10, ''Merge''),
               (''sorted'', 10, ''Timsort (built-in)''),
               (''sorted'', 100, ''Merge''), (''sorted'', 100, ''Timsort (built-in)'')] \<and>
            length (filter (\<lambda>r. row_n r = 10) rows) = 3 \<and>
            length (filter (\<lambda>r. row_n r = 100) rows) = 2)"
proof (intro conjI)
  from run_benchmarks_returns[OF assms, of E w] obtain w' rows where
    r: "run_benchmarks G E sizes large_sizes patterns repeats w = Some (Inr (w', rows))" by blast
  have "perform_jobs G E repeats (jobs sizes large_sizes patterns) w = Some (Inr (w', rows))"
    using r by (simp only: run_benchmarks_perform_jobs)
  moreover have "map row_key rows = expected_keys sizes large_sizes patterns"
    using r by (rule run_benchmarks_keys)
  ultimately show "\<exists>w' rows.
            run_benchmarks G E sizes large_sizes patterns repeats w = Some (Inr (w', rows)) \<and>
            perform_jobs G E repeats (jobs sizes large_sizes patterns) w = Some (Inr (w', rows)) \<and>
            map row_key rows = expected_keys sizes large_sizes patterns"
    using r by (intro exI[of _ w'] exI[of _ rows]) (simp only: simp_thms)
next
  have "0 < repeats" using assms by (simp add: valid_config_def)
  then have "valid_config G [10] [100] [''sorted''] repeats"
    by (simp add: valid_config_def)
  from run_benchmarks_returns[OF this, of E w] obtain w' rows where
    r: "run_benchmarks G E [10] [100] [''sorted''] repeats w = Some (Inr (w', rows))" by blast
  have js: "jobs [10] [100] [''sorted''] =
              [(''sorted'', 10, 123,
                  [(''Insertion'', insertion_algorithm), (''Merge'', merge_algorithm),
                   (''Timsort (built-in)'', timsort_algorithm)]),
               (''sorted'', 100, 777,
                  [(''Merge'', merge_algorithm), (''Timsort (built-in)'', timsort_algorithm)])]"
    by (simp add: jobs_def ALGORITHMS_def)
  have pj: "perform_jobs G E repeats
              [(''sorted'', 10, 123,
                  [(''Insertion'', insertion_algorithm), (''Merge'', merge_algorithm),
                   (''Timsort (built-in)'', timsort_algorithm)]),
               (''sorted'', 100, 777,
                  [(''Merge'', merge_algorithm), (''Timsort (built-in)'', timsort_algorithm)])] w =
              Some (Inr (w', rows))"
    using r by (simp only: run_benchmarks_perform_jobs js)
  have k: "map row_key rows =
           [(''sorted'', 10, ''Insertion''), (''sorted'', 10, ''Merge''),
            (''sorted'', 10, ''Timsort (built-in)''),
            (''sorted'', 100, ''Merge''), (''sorted'', 100, ''Timsort (built-in)'')]"
    using run_benchmarks_keys[OF r]
    by (simp add: expected_keys_def small_keys_def large_keys_def ALGORITHMS_def)
  have c: "length (filter (\<lambda>r. row_n r = 10) rows) = 3" "length (filter (\<lambda>r. row_n r = 100) rows) = 2"
    by (simp_all add: count_by_key k)
  show "\<exists>w' rows.
            run_benchmarks G E [10] [100] [''sorted''] repeats w = Some (Inr (w', rows)) \<and>
            perform_jobs G E repeats
              [(''sorted'', 10, 123,
                  [(''Insertion'', insertion_algorithm), (''Merge'', merge_algorithm),
                   (''Timsort (built-in)'', timsort_algorithm)]),
               (''sorted'', 100, 777,
                  [(''Merge'', merge_algorithm), (''Timsort (built-in)'', timsort_algorithm)])] w =
              Some (Inr (w', rows)) \<and>
            map row_key rows =
              [(''sorted'', 10, ''Insertion''), (''sorted'', 10, ''Merge''),
               (''sorted'', 10, ''Timsort (built-in)''),
               (''sorted'', 100, ''Merge''), (''sorted'', 100, ''Timsort (built-in)'')] \<and>
            length (filter (\<lambda>r. row_n r = 10) rows) = 3 \<and>
            length (filter (\<lambda>r. row_n r = 100) rows) = 2"
    using r pj k c by (intro exI[of _ w'] exI[of _ rows]) (simp only: simp_thms)
qed

theorem run_benchmarks_row_order_witness:
  "valid_config counter_prng [5, 7] [20] [''random'', ''nearly_sorted''] 3 \<and>
   (\<exists>w' rows. run_benchmarks counter_prng unit_cost [5, 7] [20] [''random'', ''nearly_sorted''] 3
                 start_world = Some (Inr (w', rows)) \<and>
      perform_jobs counter_prng unit_cost 3 (jobs [5, 7] [20] [''random'', ''nearly_sorted''])
        start_world = Some (Inr (w', rows)) \<and>
      map row_key rows = expected_keys [5, 7] [20] [''random'', ''nearly_sorted''])"
proof -
  have v: "valid_config counter_prng [5, 7] [20] [''random'', ''nearly_sorted''] 3"
    by (simp add: valid_config_def counter_prng_in_range)
  from run_benchmarks_row_order[OF v, of unit_cost start_world]
  show ?thesis using v by (simp only: simp_thms)
qed

text \<open>
  Claim C4 as stated fails: not every configuration gives rows. A pattern the generator
  does not know makes \<open>make_dataset\<close> raise \<^verbatim>\<open>ValueError("Unknown pattern")\<close>, which the
  run does not catch; with \<open>repeats = 0\<close> no trial is run and \<^verbatim>\<open>min\<close> of the empty list
  of times raises; and the size 0 with the pattern \<^verbatim>\<open>nearly_sorted\<close> makes the dataset
  generator raise, as shown for claim C2. In each case the run returns no row.
\<close>

theorem rows_for_every_configuration_counterexample:
  "run_benchmarks counter_prng unit_cost [10] [100] [''bogus''] 3 start_world =
     Some (Inl (ValueError ''Unknown pattern'')) \<and>
   run_benchmarks counter_prng unit_cost [10] [100] [''sorted''] 0 start_world =
     Some (Inl (ValueError ''min() arg is an empty sequence'')) \<and>
   run_benchmarks counter_prng unit_cost [0] [100] [''nearly_sorted''] 3 start_world =
     Some (Inl (ValueError ''empty range for randrange()''))"
  by (simp add: run_benchmarks_def make_dataset_def alloc_def randrange_def ALGORITHMS_def
      time_algorithm_def py_min_def)

lemma distinct_concat_tagged:
  assumes "distinct xs" "\<And>x. x \<in> set xs \<Longrightarrow> distinct (f x)"
    "\<And>x y. x \<in> set xs \<Longrightarrow> y \<in> set (f x) \<Longrightarrow> tag y = x"
  shows "distinct (concat (map f xs))"
  using assms
proof (induction xs)
  case Nil
  show ?case by simp
next
  case (Cons x xs)
  have "set (f x) \<inter> set (concat (map f xs)) = {}"
  proof (rule ccontr)
    assume "set (f x) \<inter> set (concat (map f xs)) \<noteq> {}"
    then obtain y x' where "y \<in> set (f x)" "x' \<in> set xs" "y \<in> set (f x')" by auto
    then have "tag y = x" "tag y = x'" using Cons.prems(3) by simp_all
    with \<open>x' \<in> set xs\<close> Cons.prems(1) show False by simp
  qed
  moreover have "distinct (concat (map f xs))"
    using Cons by simp
  moreover have "distinct (f x)" using Cons.prems(2) by simp
  ultimately show ?case by simp
qed

lemma distinct_small_keys: "distinct sizes \<Longrightarrow> distinct (small_keys p sizes)"
  unfolding small_keys_def
  by (rule distinct_concat_tagged[where tag = "\<lambda>k. fst (snd k)"])
     (auto simp: ALGORITHMS_def distinct_map inj_on_def)

lemma distinct_large_keys: "distinct large_sizes \<Longrightarrow> distinct (large_keys p large_sizes)"
  unfolding large_keys_def
  by (rule distinct_concat_tagged[where tag = "\<lambda>k. fst (snd k)"])
     (auto simp: ALGORITHMS_def distinct_map inj_on_def)

lemma small_keys_mem: "k \<in> set (small_keys p sizes) \<Longrightarrow> fst k = p \<and> fst (snd k) \<in> set sizes"
  by (auto simp: small_keys_def)

lemma large_keys_mem: "k \<in> set (large_keys p large_sizes) \<Longrightarrow> fst k = p \<and> fst (snd k) \<in> set large_sizes"
  by (auto simp: large_keys_def)

lemma distinct_expected_keys:
  assumes "distinct patterns" "distinct (sizes @ large_sizes)"
  shows "distinct (expected_keys sizes large_sizes patterns)"
  unfolding expected_keys_def
proof (rule distinct_concat_tagged[where tag = fst])
  show "distinct patterns" by (rule assms(1))
next
  fix p
  have "set (small_keys p sizes) \<inter> set (large_keys p large_sizes) = {}"
    using assms(2) by (auto dest!: small_keys_mem large_keys_mem)
  then show "distinct (small_keys p sizes @ large_keys p large_sizes)"
    using assms(2) by (simp add: distinct_small_keys distinct_large_keys)
next
  fix p y
  assume "y \<in> set (small_keys p sizes @ large_keys p large_sizes)"
  then show "fst y = p" by (auto dest: small_keys_mem large_keys_mem)
qed

text \<open>
  Claim C9, as the code has it. When the patterns are pairwise distinct and the small
  and large sizes taken together are pairwise distinct, the rows a run returns hold
  at most one row for each triple of pattern, size and algorithm.
\<close>

theorem rows_unique_for_distinct_config:
  assumes "distinct patterns" "distinct (sizes @ large_sizes)"
    and "run_benchmarks G E sizes large_sizes patterns repeats w = Some (Inr (w', rows))"
  shows "distinct (map row_key rows)"
  using run_benchmarks_keys[OF assms(3)] distinct_expected_keys[OF assms(1,2)] by simp

theorem rows_unique_for_distinct_config_witness:
  "distinct [''sorted'', ''reversed''] \<and> distinct ([2, 3] @ [4 :: int]) \<and>
   rows_of (run_benchmarks counter_prng unit_cost [2, 3] [4] [''sorted'', ''reversed''] 1 start_world) \<noteq> [] \<and>
   distinct (map row_key
     (rows_of (run_benchmarks counter_prng unit_cost [2, 3] [4] [''sorted'', ''reversed''] 1 start_world)))"
proof -
  have "valid_config counter_prng [2, 3] [4] [''sorted'', ''reversed''] 1"
    by (simp add: valid_config_def)
  from run_benchmarks_returns[OF this, of unit_cost start_world] obtain w' rows where
    r: "run_benchmarks counter_prng unit_cost [2, 3] [4] [''sorted'', ''reversed''] 1 start_world =
          Some (Inr (w', rows))" by blast
  have d: "distinct [''sorted'', ''reversed'']" "distinct ([2, 3] @ [4 :: int])" by simp_all
  have "map row_key rows = expected_keys [2, 3] [4] [''sorted'', ''reversed'']"
    using r by (rule run_benchmarks_keys)
  then have "rows \<noteq> []"
    by (auto simp: expected_keys_def small_keys_def large_keys_def ALGORITHMS_def)
  then show ?thesis
    using d rows_unique_for_distinct_config[OF d r] by (simp add: r rows_of_def)
qed

text \<open>
  Claim C9 as stated fails: the code removes no duplicates from its arguments and
  does not compare the small sizes with the large ones. With the size 10 both among
  the small and among the large sizes, the pattern \<^verbatim>\<open>sorted\<close> has two rows for
  \<^verbatim>\<open>Merge\<close> at size 10 and two for the built-in sort.
\<close>

theorem one_row_per_triple_counterexample:
  "\<not> distinct (map row_key
      (rows_of (run_benchmarks counter_prng unit_cost [10] [10] [''sorted''] 1 start_world)))"
proof -
  have "valid_config counter_prng [10] [10] [''sorted''] 1"
    by (simp add: valid_config_def)
  from run_benchmarks_returns[OF this, of unit_cost start_world] obtain w' rows where
    r: "run_benchmarks counter_prng unit_cost [10] [10] [''sorted''] 1 start_world =
          Some (Inr (w', rows))" by blast
  have "map row_key rows = expected_keys [10] [10] [''sorted'']"
    using r by (rule run_benchmarks_keys)
  then have "\<not> distinct (map row_key rows)"
    by (simp add: expected_keys_def small_keys_def large_keys_def ALGORITHMS_def)
  then show ?thesis by (simp add: r rows_of_def)
qed

section \<open>Verification of the growth-factor analyzer\<close>

lemma fl_div_eq:
  "fl_div x y = (if y = Num 0 then Inl ZeroDivisionError else Inr (fl_quotient x y))"
  by (cases x; cases y) (simp_all add: fl_div_def fl_quotient_def)

lemma growth_algos_spec:
  "growth_algos rows p algos result =
     (if list_ex (cell_zero rows p) algos then Inl ZeroDivisionError
      else Inr (result @ concat (map (cell_rows rows p) algos)))"
proof (induction algos arbitrary: result)
  case Nil
  show ?case by simp
next
  case (Cons a algos)
  show ?case
  proof (cases "cell_zero rows p a")
    case True
    then show ?thesis
      by (auto simp: cell_zero_def fl_div_eq Let_def)
  next
    case False
    then have nz: "cell_time rows p a 1000 \<noteq> Num 0" "cell_time rows p a 2000 \<noteq> Num 0"
      by (simp_all add: cell_zero_def)
    have step: "growth_algos rows p (a # algos) result =
                  growth_algos rows p algos (result @ cell_rows rows p a)"
      using nz by (simp add: fl_div_eq Let_def cell_rows_def)
    show ?thesis
      using False by (simp add: step Cons del: growth_algos.simps)
  qed
qed

lemma growth_patterns_spec:
  "growth_patterns rows ps result =
     (if list_ex (\<lambda>p. list_ex (cell_zero rows p) growth_algorithms_of_interest) ps
      then Inl ZeroDivisionError
      else Inr (result @
             concat (map (\<lambda>p. concat (map (cell_rows rows p) growth_algorithms_of_interest)) ps)))"
proof (induction ps arbitrary: result)
  case Nil
  show ?case by simp
next
  case (Cons p ps)
  have unfold: "growth_patterns rows (p # ps) result =
      (case growth_algos rows p growth_algorithms_of_interest result of
         Inl e \<Rightarrow> Inl e | Inr result' \<Rightarrow> growth_patterns rows ps result')"
    by (simp add: growth_algorithms_of_interest_def)
  show ?case
    unfolding unfold growth_algos_spec
    by (simp add: Cons)
qed

lemma compute_growth_spec:
  "compute_growth rows =
     (if zero_denominator rows then Inl ZeroDivisionError else Inr (growth_table rows))"
  unfolding compute_growth_def zero_denominator_def growth_table_def
  using growth_patterns_spec[of rows growth_patterns_of_interest "[]"]
  by (simp add: growth_patterns_of_interest_def)

lemma growth_table_keys:
  "map growth_key (growth_table rows) =
     [(p, a, l). p \<leftarrow> [''random'', ''reversed'', ''nearly_sorted''],
                 a \<leftarrow> [''Insertion'', ''Merge'', ''Timsort (built-in)''],
                 l \<leftarrow> [pair_1k_2k, pair_2k_5k]]"
  by (simp add: growth_table_def growth_patterns_of_interest_def growth_algorithms_of_interest_def
      cell_rows_def growth_key_def)

lemma growth_table_length: "length (growth_table rows) = 18"
  by (simp add: growth_table_def growth_patterns_of_interest_def growth_algorithms_of_interest_def
      cell_rows_def)

lemma growth_table_patterns:
  "growth_pattern ` set (growth_table rows) = {''random'', ''reversed'', ''nearly_sorted''}"
  by (auto simp: growth_table_def growth_patterns_of_interest_def growth_algorithms_of_interest_def
      cell_rows_def)

lemma missing_cell_time: "missing rows p a n \<Longrightarrow> cell_time rows p a n = NaN"
  by (simp add: missing_def cell_time_def)

lemma zero_cell_present: "cell_time rows p a n = Num 0 \<Longrightarrow> \<not> missing rows p a n"
  by (auto simp: missing_def cell_time_def)

lemma min_loop_number: "is_number v \<Longrightarrow> list_all is_number vs \<Longrightarrow> is_number (min_loop v vs)"
  by (induction vs arbitrary: v) simp_all

lemma finite_cell_time: "finite_cell rows p a n \<Longrightarrow> is_number (cell_time rows p a n)"
  by (cases "cell_vals rows p a n") (simp_all add: finite_cell_def cell_time_def min_loop_number)

lemma fl_quotient_NaN_operand: "x = NaN \<or> y = NaN \<Longrightarrow> fl_quotient x y = NaN"
  by (cases x; cases y) (simp_all add: fl_quotient_def fl_div_def)

lemma fl_quotient_numbers:
  "is_number x \<Longrightarrow> is_number y \<Longrightarrow> y \<noteq> Num 0 \<Longrightarrow> fl_quotient x y \<noteq> NaN"
  by (cases x; cases y) (simp_all add: fl_quotient_def fl_div_def is_number_def)

lemma pair_labels_differ: "pair_1k_2k \<noteq> pair_2k_5k"
  by (simp add: pair_1k_2k_def pair_2k_5k_def)

lemma growth_table_mem:
  "r \<in> set (growth_table rows) \<longleftrightarrow>
     (\<exists>p \<in> set growth_patterns_of_interest. \<exists>a \<in> set growth_algorithms_of_interest.
        r \<in> set (cell_rows rows p a))"
  by (auto simp: growth_table_def)

lemma cell_rows_mem:
  "r \<in> set (cell_rows rows p a) \<longleftrightarrow>
     r = \<lparr>growth_pattern = p, growth_algorithm = a, growth_pair = pair_1k_2k,
          growth = fl_quotient (cell_time rows p a 2000) (cell_time rows p a 1000)\<rparr> \<or>
     r = \<lparr>growth_pattern = p, growth_algorithm = a, growth_pair = pair_2k_5k,
          growth = fl_quotient (cell_time rows p a 5000) (cell_time rows p a 2000)\<rparr>"
  by (auto simp: cell_rows_def)

lemma cell_vals_without_cell:
  "cell_vals (without_cell rows p a n) p' a' m =
     (if p' = p \<and> a' = a \<and> m = n then [] else cell_vals rows p' a' m)"
proof (cases "p' = p \<and> a' = a \<and> m = n")
  case True
  then show ?thesis
    by (simp add: cell_vals_def without_cell_def filter_empty_conv)
next
  case False
  have "filter (\<lambda>r. row_pattern r = p' \<and> row_n r = m \<and> row_algorithm r = a')
          (filter (\<lambda>r. \<not> (row_pattern r = p \<and> row_n r = n \<and> row_algorithm r = a)) rows) =
        filter (\<lambda>r. row_pattern r = p' \<and> row_n r = m \<and> row_algorithm r = a') rows"
    using False by (auto simp: filter_filter intro!: filter_cong)
  then show ?thesis
    using False by (simp only: cell_vals_def without_cell_def if_False)
qed

lemma cell_time_without_cell:
  "cell_time (without_cell rows p a n) p' a' m =
     (if p' = p \<and> a' = a \<and> m = n then NaN else cell_time rows p' a' m)"
  by (simp add: cell_time_def cell_vals_without_cell)

lemma cell_zero_without_cell:
  "cell_zero (without_cell rows p a n) p' a' \<Longrightarrow> cell_zero rows p' a'"
  by (auto simp: cell_zero_def cell_time_without_cell split: if_splits)

lemma zero_denominator_without_cell:
  "zero_denominator (without_cell rows p a n) \<Longrightarrow> zero_denominator rows"
  by (auto simp: zero_denominator_def list_ex_iff dest: cell_zero_without_cell)

lemma zero_denominator_present:
  "zero_denominator rows \<Longrightarrow>
   \<exists>p a m. (m = 1000 \<or> m = 2000) \<and> \<not> missing rows p a m \<and> cell_time rows p a m = Num 0"
  by (auto simp: zero_denominator_def list_ex_iff cell_zero_def dest: zero_cell_present)

lemma no_zero_in_empty: "\<not> zero_denominator []"
  by (simp add: zero_denominator_def cell_zero_def cell_time_def cell_vals_def
      growth_patterns_of_interest_def growth_algorithms_of_interest_def)

lemma zero_in_sample:
  "zero_denominator [mk_row ''sorted'' 1000 ''Merge'' (Num 7), mk_row ''random'' 1000 ''Merge'' (Num 0)]"
  by (simp add: zero_denominator_def cell_zero_def cell_time_def cell_vals_def mk_row_def
      growth_patterns_of_interest_def growth_algorithms_of_interest_def)

lemma sample_rows_no_zero: "\<not> zero_denominator sample_rows"
  by (simp add: zero_denominator_def cell_zero_def cell_time_def cell_vals_def mk_row_def
      sample_rows_def growth_patterns_of_interest_def growth_algorithms_of_interest_def)

lemma sample_rows_missing: "missing sample_rows ''random'' ''Insertion'' 2000"
  by (simp add: missing_def cell_vals_def mk_row_def sample_rows_def)

text \<open>
  Claim C10, as the code has it. On every input on which none of the nine
  combinations of pattern and algorithm has a zero minimum at size 1000 or 2000,
  \<open>compute_growth\<close> returns exactly 18 rows: for each of the patterns \<^verbatim>\<open>random\<close>,
  \<^verbatim>\<open>reversed\<close>, \<^verbatim>\<open>nearly_sorted\<close> in this order and each of the three algorithms in
  order, the row of the pair 1k to 2k and then the row of the pair 2k to 5k; the
  pattern \<^verbatim>\<open>sorted\<close> never appears. On every other input it raises
  \<^verbatim>\<open>ZeroDivisionError\<close>.
\<close>

theorem compute_growth_eighteen_rows:
  "(zero_denominator rows \<longrightarrow> compute_growth rows = Inl ZeroDivisionError) \<and>
   (\<not> zero_denominator rows \<longrightarrow>
      (\<exists>g. compute_growth rows = Inr g \<and> length g = 18 \<and>
         map growth_key g =
           [(p, a, l). p \<leftarrow> [''random'', ''reversed'', ''nearly_sorted''],
                       a \<leftarrow> [''Insertion'', ''Merge'', ''Timsort (built-in)''],
                       l \<leftarrow> [pair_1k_2k, pair_2k_5k]] \<and>
         ''sorted'' \<notin> growth_pattern ` set g))"
proof (intro conjI impI)
  assume "zero_denominator rows"
  then show "compute_growth rows = Inl ZeroDivisionError"
    by (simp add: compute_growth_spec)
next
  assume "\<not> zero_denominator rows"
  then have "compute_growth rows = Inr (growth_table rows)"
    by (simp add: compute_growth_spec)
  moreover have "''sorted'' \<notin> growth_pattern ` set (growth_table rows)"
    by (simp only: growth_table_patterns) simp
  ultimately show "\<exists>g. compute_growth rows = Inr g \<and> length g = 18 \<and>
         map growth_key g =
           [(p, a, l). p \<leftarrow> [''random'', ''reversed'', ''nearly_sorted''],
                       a \<leftarrow> [''Insertion'', ''Merge'', ''Timsort (built-in)''],
                       l \<leftarrow> [pair_1k_2k, pair_2k_5k]] \<and>
         ''sorted'' \<notin> growth_pattern ` set g"
    using growth_table_keys[of rows] growth_table_length[of rows]
    by (intro exI[of _ "growth_table rows"]) (simp only: simp_thms)
qed

theorem compute_growth_eighteen_rows_witness:
  "zero_denominator [mk_row ''sorted'' 1000 ''Merge'' (Num 7), mk_row ''random'' 1000 ''Merge'' (Num 0)] \<and>
   compute_growth [mk_row ''sorted'' 1000 ''Merge'' (Num 7), mk_row ''random'' 1000 ''Merge'' (Num 0)] =
     Inl ZeroDivisionError \<and>
   \<not> zero_denominator [] \<and>
   (\<exists>g. compute_growth [] = Inr g \<and> length g = 18 \<and>
      map growth_key g =
        [(p, a, l). p \<leftarrow> [''random'', ''reversed'', ''nearly_sorted''],
                    a \<leftarrow> [''Insertion'', ''Merge'', ''Timsort (built-in)''],
                    l \<leftarrow> [pair_1k_2k, pair_2k_5k]] \<and>
      ''sorted'' \<notin> growth_pattern ` set g)"
  using zero_in_sample no_zero_in_empty
    compute_growth_eighteen_rows[of
      "[mk_row ''sorted'' 1000 ''Merge'' (Num 7), mk_row ''random'' 1000 ''Merge'' (Num 0)]"]
    compute_growth_eighteen_rows[of "[]"]
  by (simp only: simp_thms)

text \<open>
  Claim C10 as stated fails: not every input gives 18 rows. A single row with the
  duration 0.0 at size 2000 makes the division \<^verbatim>\<open>ts[2] / ts[1]\<close> raise.
\<close>

theorem always_eighteen_rows_counterexample:
  "compute_growth
     [\<lparr>row_pattern = ''reversed'', row_n = 2000, row_algorithm = ''Timsort (built-in)'',
        row_time_sec = Num 0\<rparr>] = Inl ZeroDivisionError"
  by (simp add: compute_growth_def cell_time_def cell_vals_def fl_div_def Let_def)

text \<open>
  Claim C5, as the code has it. On every input on which the analysis returns (no zero
  minimum at size 1000 or 2000), a missing cell of a covered pattern and algorithm
  gives not-a-number in every growth row of that pattern and algorithm whose pair
  touches the missing size, and there is such a row; every growth row whose three
  cells are finite (not missing, with durations that are numbers) holds a ratio that
  is not not-a-number. The analysis fails only with
  \<^verbatim>\<open>ZeroDivisionError\<close>, and then a cell that is not missing has the minimum zero at
  size 1000 or 2000: a missing cell is never the cause, and removing the rows of a
  cell from an input on which the analysis returns gives an input on which it returns.
\<close>

theorem missing_cell_yields_nan:
  assumes "\<not> zero_denominator rows"
    and "p \<in> set growth_patterns_of_interest" "a \<in> set growth_algorithms_of_interest"
    and "n = 1000 \<or> n = 2000 \<or> n = 5000"
    and "missing rows p a n"
  shows "(\<exists>g. compute_growth rows = Inr g \<and>
            (\<exists>r \<in> set g. growth_pattern r = p \<and> growth_algorithm r = a \<and> touches (growth_pair r) n) \<and>
            (\<forall>r \<in> set g. growth_pattern r = p \<and> growth_algorithm r = a \<and> touches (growth_pair r) n \<longrightarrow>
                growth r = NaN) \<and>
            (\<forall>r \<in> set g.
                finite_cell rows (growth_pattern r) (growth_algorithm r) 1000 \<and>
                finite_cell rows (growth_pattern r) (growth_algorithm r) 2000 \<and>
                finite_cell rows (growth_pattern r) (growth_algorithm r) 5000 \<longrightarrow>
                growth r \<noteq> NaN)) \<and>
         (\<forall>rows' e. compute_growth rows' = Inl e \<longrightarrow>
            e = ZeroDivisionError \<and>
            (\<exists>p' a' m. (m = 1000 \<or> m = 2000) \<and> \<not> missing rows' p' a' m \<and>
                cell_time rows' p' a' m = Num 0)) \<and>
         (\<forall>rows' g'. compute_growth rows' = Inr g' \<longrightarrow>
            (\<exists>g''. compute_growth (without_cell rows' p a n) = Inr g''))"
proof (intro conjI)
  have run: "compute_growth rows = Inr (growth_table rows)"
    using assms(1) by (simp add: compute_growth_spec)
  have t: "cell_time rows p a n = NaN"
    using assms(5) by (rule missing_cell_time)
  let ?r1 = "\<lparr>growth_pattern = p, growth_algorithm = a, growth_pair = pair_1k_2k,
          growth = fl_quotient (cell_time rows p a 2000) (cell_time rows p a 1000)\<rparr>"
  let ?r2 = "\<lparr>growth_pattern = p, growth_algorithm = a, growth_pair = pair_2k_5k,
          growth = fl_quotient (cell_time rows p a 5000) (cell_time rows p a 2000)\<rparr>"
  have mem: "?r1 \<in> set (growth_table rows)" "?r2 \<in> set (growth_table rows)"
    using assms(2,3) by (auto simp: growth_table_mem cell_rows_mem)
  have ex: "\<exists>r \<in> set (growth_table rows).
              growth_pattern r = p \<and> growth_algorithm r = a \<and> touches (growth_pair r) n"
  proof (cases "n = 5000")
    case True
    then have "touches (growth_pair ?r2) n" by (simp add: touches_def)
    with mem(2) show ?thesis by (intro bexI[of _ ?r2]) simp_all
  next
    case False
    with assms(4) have "touches (growth_pair ?r1) n" by (simp add: touches_def)
    with mem(1) show ?thesis by (intro bexI[of _ ?r1]) simp_all
  qed
  have nan: "\<forall>r \<in> set (growth_table rows).
               growth_pattern r = p \<and> growth_algorithm r = a \<and> touches (growth_pair r) n \<longrightarrow>
               growth r = NaN"
  proof (intro ballI impI)
    fix r
    assume r: "r \<in> set (growth_table rows)"
      and k: "growth_pattern r = p \<and> growth_algorithm r = a \<and> touches (growth_pair r) n"
    from r obtain p' a' where "r \<in> set (cell_rows rows p' a')"
      by (auto simp: growth_table_mem)
    with k have "r = ?r1 \<or> r = ?r2"
      by (auto simp: cell_rows_mem)
    then show "growth r = NaN"
    proof
      assume r1: "r = ?r1"
      with k have "n = 1000 \<or> n = 2000"
        using pair_labels_differ by (simp add: touches_def)
      with t show ?thesis by (auto simp: r1 fl_quotient_NaN_operand)
    next
      assume r2: "r = ?r2"
      with k have "n = 2000 \<or> n = 5000"
        using pair_labels_differ by (simp add: touches_def)
      with t show ?thesis by (auto simp: r2 fl_quotient_NaN_operand)
    qed
  qed
  have num: "\<forall>r \<in> set (growth_table rows).
               finite_cell rows (growth_pattern r) (growth_algorithm r) 1000 \<and>
               finite_cell rows (growth_pattern r) (growth_algorithm r) 2000 \<and>
               finite_cell rows (growth_pattern r) (growth_algorithm r) 5000 \<longrightarrow>
               growth r \<noteq> NaN"
  proof (intro ballI impI)
    fix r
    assume r: "r \<in> set (growth_table rows)"
      and c: "finite_cell rows (growth_pattern r) (growth_algorithm r) 1000 \<and>
              finite_cell rows (growth_pattern r) (growth_algorithm r) 2000 \<and>
              finite_cell rows (growth_pattern r) (growth_algorithm r) 5000"
    from r obtain p' a' where cov: "p' \<in> set growth_patterns_of_interest"
        "a' \<in> set growth_algorithms_of_interest" and pa: "r \<in> set (cell_rows rows p' a')"
      by (auto simp: growth_table_mem)
    have "\<not> cell_zero rows p' a'"
      using assms(1) cov by (auto simp: zero_denominator_def list_ex_iff)
    then have nz: "cell_time rows p' a' 1000 \<noteq> Num 0" "cell_time rows p' a' 2000 \<noteq> Num 0"
      by (simp_all add: cell_zero_def)
    from pa have "growth_pattern r = p'" "growth_algorithm r = a'"
      by (auto simp: cell_rows_mem)
    with c have "is_number (cell_time rows p' a' 1000)" "is_number (cell_time rows p' a' 2000)"
      "is_number (cell_time rows p' a' 5000)"
      by (simp_all add: finite_cell_time)
    with pa nz show "growth r \<noteq> NaN"
      by (auto simp: cell_rows_mem fl_quotient_numbers)
  qed
  show "\<exists>g. compute_growth rows = Inr g \<and>
            (\<exists>r \<in> set g. growth_pattern r = p \<and> growth_algorithm r = a \<and> touches (growth_pair r) n) \<and>
            (\<forall>r \<in> set g. growth_pattern r = p \<and> growth_algorithm r = a \<and> touches (growth_pair r) n \<longrightarrow>
                growth r = NaN) \<and>
            (\<forall>r \<in> set g.
                finite_cell rows (growth_pattern r) (growth_algorithm r) 1000 \<and>
                finite_cell rows (growth_pattern r) (growth_algorithm r) 2000 \<and>
                finite_cell rows (growth_pattern r) (growth_algorithm r) 5000 \<longrightarrow>
                growth r \<noteq> NaN)"
    using run ex nan num by (intro exI[of _ "growth_table rows"]) (simp only: simp_thms)
next
  show "\<forall>rows' e. compute_growth rows' = Inl e \<longrightarrow>
            e = ZeroDivisionError \<and>
            (\<exists>p' a' m. (m = 1000 \<or> m = 2000) \<and> \<not> missing rows' p' a' m \<and>
                cell_time rows' p' a' m = Num 0)"
  proof (intro allI impI)
    fix rows' e
    assume f: "compute_growth rows' = Inl e"
    then have z: "zero_denominator rows'" and e: "e = ZeroDivisionError"
      by (auto simp: compute_growth_spec split: if_splits)
    from zero_denominator_present[OF z] e
    show "e = ZeroDivisionError \<and>
            (\<exists>p' a' m. (m = 1000 \<or> m = 2000) \<and> \<not> missing rows' p' a' m \<and>
                cell_time rows' p' a' m = Num 0)"
      by simp
  qed
next
  show "\<forall>rows' g'. compute_growth rows' = Inr g' \<longrightarrow>
            (\<exists>g''. compute_growth (without_cell rows' p a n) = Inr g'')"
  proof (intro allI impI)
    fix rows' g'
    assume "compute_growth rows' = Inr g'"
    then have "\<not> zero_denominator rows'"
      by (auto simp: compute_growth_spec split: if_splits)
    then have "\<not> zero_denominator (without_cell rows' p a n)"
      by (blast dest: zero_denominator_without_cell)
    then show "\<exists>g''. compute_growth (without_cell rows' p a n) = Inr g''"
      by (simp add: compute_growth_spec)
  qed
qed

theorem missing_cell_yields_nan_witness:
  "\<not> zero_denominator sample_rows \<and>
   ''random'' \<in> set growth_patterns_of_interest \<and>
   ''Insertion'' \<in> set growth_algorithms_of_interest \<and>
   missing sample_rows ''random'' ''Insertion'' 2000 \<and>
   (\<exists>g. compute_growth sample_rows = Inr g \<and>
      (\<exists>r \<in> set g. growth_pattern r = ''random'' \<and> growth_algorithm r = ''Insertion'' \<and>
          touches (growth_pair r) 2000) \<and>
      (\<forall>r \<in> set g. growth_pattern r = ''random'' \<and> growth_algorithm r = ''Insertion'' \<and>
          touches (growth_pair r) 2000 \<longrightarrow> growth r = NaN) \<and>
      (\<forall>r \<in> set g.
          finite_cell sample_rows (growth_pattern r) (growth_algorithm r) 1000 \<and>
          finite_cell sample_rows (growth_pattern r) (growth_algorithm r) 2000 \<and>
          finite_cell sample_rows (growth_pattern r) (growth_algorithm r) 5000 \<longrightarrow>
          growth r \<noteq> NaN))"
proof -
  have p: "''random'' \<in> set growth_patterns_of_interest"
    by (simp add: growth_patterns_of_interest_def)
  have a: "''Insertion'' \<in> set growth_algorithms_of_interest"
    by (simp add: growth_algorithms_of_interest_def)
  have n: "(2000::int) = 1000 \<or> (2000::int) = 2000 \<or> (2000::int) = 5000" by simp
  from missing_cell_yields_nan[OF sample_rows_no_zero p a n sample_rows_missing]
  show ?thesis
    using sample_rows_no_zero p a sample_rows_missing by (simp only: simp_thms)
qed

text \<open>
  Claim C5 as stated fails in two ways. On an input with a zero duration the analysis
  emits no row at all: here the cell of \<^verbatim>\<open>random\<close>, \<^verbatim>\<open>Insertion\<close> and size 1000 is
  missing, and the zero recorded for \<^verbatim>\<open>Merge\<close> at size 1000 makes a division raise.
  And a pair that is unrelated to the missing cell and has all its cells recorded need
  not get a numeric ratio: with the duration infinity recorded for \<^verbatim>\<open>Merge\<close> at the
  three sizes, both ratios of \<^verbatim>\<open>Merge\<close> are not-a-number.
\<close>

theorem missing_cell_yields_nan_counterexample:
  "missing
     [\<lparr>row_pattern = ''random'', row_n = 1000, row_algorithm = ''Merge'', row_time_sec = Num 0\<rparr>]
     ''random'' ''Insertion'' 1000 \<and>
   compute_growth
     [\<lparr>row_pattern = ''random'', row_n = 1000, row_algorithm = ''Merge'', row_time_sec = Num 0\<rparr>] =
     Inl ZeroDivisionError \<and>
   missing infinite_rows ''random'' ''Insertion'' 1000 \<and>
   cell_vals infinite_rows ''random'' ''Merge'' 1000 = [PosInf] \<and>
   cell_vals infinite_rows ''random'' ''Merge'' 2000 = [PosInf] \<and>
   cell_vals infinite_rows ''random'' ''Merge'' 5000 = [PosInf] \<and>
   growth_of (compute_growth infinite_rows) ''random'' ''Merge'' = [NaN, NaN]"
  by (simp add: missing_def compute_growth_def cell_time_def cell_vals_def fl_div_def Let_def
      infinite_rows_def mk_row_def growth_of_def)

end
